theory Spec2Isabelle
  imports Main "HOL-Library.Word" "HOL-Library.List_Lexorder"
begin

section \<open>Strings\<close>

text \<open>
  A JavaScript string is a sequence of UTF-16 code units. File names, patterns, file
  contents and output lines are therefore lists of 16-bit words; \<open>js\<close> turns an ASCII
  literal into such a string. A \<open>Buffer\<close> is a list of bytes.
\<close>

type_synonym jschar = "16 word"
type_synonym jsstring = "jschar list"
type_synonym byte = "8 word"

definition js :: "string \<Rightarrow> jsstring" where
  "js s = map (\<lambda>c. of_nat (of_char c)) s"

abbreviation LF :: jschar where "LF \<equiv> 0x0A"
abbreviation SPACE :: jschar where "SPACE \<equiv> 0x20"
abbreviation DOLLAR :: jschar where "DOLLAR \<equiv> 0x24"
abbreviation STAR :: jschar where "STAR \<equiv> 0x2A"
abbreviation DOT :: jschar where "DOT \<equiv> 0x2E"
abbreviation SLASH :: jschar where "SLASH \<equiv> 0x2F"
abbreviation QMARK :: jschar where "QMARK \<equiv> 0x3F"
abbreviation BACKSLASH :: jschar where "BACKSLASH \<equiv> 0x5C"
abbreviation CARET :: jschar where "CARET \<equiv> 0x5E"
abbreviation BACKTICK :: jschar where "BACKTICK \<equiv> 0x60"

section \<open>Pattern matcher (utils.ts, fnmatch)\<close>

text \<open>
  \<^verbatim>\<open>
  export function fnmatch(name: string, pattern: string): boolean {
    const escaped = pattern.replace(/[.+^${}()|[\]\\]/g, '\\$&');
    const regexStr = '^' + escaped.replace(/\*/g, '.*').replace(/\?/g, '.') + '$';
    const regex = new RegExp(regexStr);
    return regex.test(name);
  }
  \<close>
  The three \<open>replace\<close> calls are string functions of the pattern. \<open>regex_special\<close> is
  the character class of the first one: \<open>. + ^ $ { } ( ) | [ ] \\<close>.
\<close>

definition regex_special :: "jschar \<Rightarrow> bool" where
  "regex_special c \<longleftrightarrow>
     c \<in> {DOT, 0x2B, CARET, DOLLAR, 0x7B, 0x7D, 0x28, 0x29, 0x7C, 0x5B, 0x5D, BACKSLASH}"

fun escape_special :: "jsstring \<Rightarrow> jsstring" where
  "escape_special [] = []"
| "escape_special (c # cs) =
     (if regex_special c then BACKSLASH # c # escape_special cs else c # escape_special cs)"

fun replace_star :: "jsstring \<Rightarrow> jsstring" where
  "replace_star [] = []"
| "replace_star (c # cs) =
     (if c = STAR then DOT # STAR # replace_star cs else c # replace_star cs)"

fun replace_qmark :: "jsstring \<Rightarrow> jsstring" where
  "replace_qmark [] = []"
| "replace_qmark (c # cs) = (if c = QMARK then DOT # replace_qmark cs else c # replace_qmark cs)"

definition regexStr :: "jsstring \<Rightarrow> jsstring" where
  "regexStr pattern = CARET # replace_qmark (replace_star (escape_special pattern)) @ [DOLLAR]"

subsection \<open>The regular expressions that fnmatch builds\<close>

text \<open>
  \<open>RegExp\<close> is the JavaScript built-in. It is modelled on the fragment that \<open>regexStr\<close>
  produces: \<open>^\<close>, then pieces, then \<open>$\<close>, where a piece is an atom or an atom followed by
  \<open>*\<close>, and an atom is \<open>.\<close>, an escaped syntax character, or a character that is not a
  syntax character. A source outside the fragment parses to \<open>None\<close>. The regular expression
  has no flags: \<open>.\<close> matches any code unit except the line terminators U+000A, U+000D,
  U+2028 and U+2029, and the anchors are those of the whole input.
\<close>

definition line_terminator :: "jschar \<Rightarrow> bool" where
  "line_terminator c \<longleftrightarrow> c \<in> {0x0A, 0x0D, 0x2028, 0x2029}"

definition syntax_char :: "jschar \<Rightarrow> bool" where
  "syntax_char c \<longleftrightarrow> regex_special c \<or> c = STAR \<or> c = QMARK"

datatype atom = AnyChar | Lit jschar

datatype piece = Once atom | Many atom

fun quantified :: "atom \<Rightarrow> piece list option \<Rightarrow> bool \<Rightarrow> piece list option" where
  "quantified a None star = None"
| "quantified a (Some ps) star = Some ((if star then Many a else Once a) # ps)"

fun parse_pieces :: "jsstring \<Rightarrow> piece list option" where
  "parse_pieces [] = Some []"
| "parse_pieces (c # cs) =
     (if c = BACKSLASH then
        (case cs of
           [] \<Rightarrow> None
         | d # ds \<Rightarrow>
             if syntax_char d then
               (case ds of
                  [] \<Rightarrow> Some [Once (Lit d)]
                | s # ds' \<Rightarrow>
                    if s = STAR then quantified (Lit d) (parse_pieces ds') True
                    else quantified (Lit d) (parse_pieces ds) False)
             else None)
      else if syntax_char c \<and> c \<noteq> DOT then None
      else
        (case cs of
           [] \<Rightarrow> Some [Once (if c = DOT then AnyChar else Lit c)]
         | s # cs' \<Rightarrow>
             if s = STAR then quantified (if c = DOT then AnyChar else Lit c) (parse_pieces cs') True
             else quantified (if c = DOT then AnyChar else Lit c) (parse_pieces cs) False))"

fun atom_matches :: "atom \<Rightarrow> jschar \<Rightarrow> bool" where
  "atom_matches AnyChar c = (\<not> line_terminator c)"
| "atom_matches (Lit d) c = (c = d)"

fun pieces_match :: "piece list \<Rightarrow> jsstring \<Rightarrow> bool" where
  "pieces_match [] s = (s = [])"
| "pieces_match (Once a # ps) [] = False"
| "pieces_match (Once a # ps) (c # s) = (atom_matches a c \<and> pieces_match ps s)"
| "pieces_match (Many a # ps) [] = pieces_match ps []"
| "pieces_match (Many a # ps) (c # s) =
     (pieces_match ps (c # s) \<or> (atom_matches a c \<and> pieces_match (Many a # ps) s))"

definition RegExp_test :: "jsstring \<Rightarrow> jsstring \<Rightarrow> bool option" where
  "RegExp_test src name =
     (case src of
        [] \<Rightarrow> None
      | c # rest \<Rightarrow>
          if c = CARET \<and> rest \<noteq> [] \<and> last rest = DOLLAR
          then map_option (\<lambda>ps. pieces_match ps name) (parse_pieces (butlast rest))
          else None)"

definition fnmatch :: "jsstring \<Rightarrow> jsstring \<Rightarrow> bool" where
  "fnmatch name pattern = (RegExp_test (regexStr pattern) name = Some True)"

subsection \<open>The matcher as the specification words it\<close>

text \<open>
  \<open>spec_matches\<close> follows the specification: \<open>*\<close> matches zero or more characters, \<open>?\<close>
  matches exactly one character, every other character matches itself, and the whole
  name must match. \<open>glob_matches\<close> is the same matcher with the wildcards restricted to
  the characters a given predicate admits.
\<close>

fun glob_matches :: "(jschar \<Rightarrow> bool) \<Rightarrow> jsstring \<Rightarrow> jsstring \<Rightarrow> bool" where
  "glob_matches ok [] n = (n = [])"
| "glob_matches ok (p # ps) [] = (p = STAR \<and> glob_matches ok ps [])"
| "glob_matches ok (p # ps) (c # n) =
     (if p = STAR then glob_matches ok ps (c # n) \<or> (ok c \<and> glob_matches ok (p # ps) n)
      else if p = QMARK then ok c \<and> glob_matches ok ps n
      else c = p \<and> glob_matches ok ps n)"

definition spec_matches :: "jsstring \<Rightarrow> jsstring \<Rightarrow> bool" where
  "spec_matches name pattern = glob_matches (\<lambda>c. True) pattern name"

section \<open>Text utilities (utils.ts)\<close>

text \<open>\<open>content.split('\n')\<close>: always at least one line.\<close>

fun split_nl :: "jsstring \<Rightarrow> jsstring list" where
  "split_nl [] = [[]]"
| "split_nl (c # cs) =
     (if c = LF then [] # split_nl cs
      else (case split_nl cs of [] \<Rightarrow> [[c]] | l # ls \<Rightarrow> (c # l) # ls))"

text \<open>\<open>lines.join('\n')\<close>.\<close>

fun join_nl :: "jsstring list \<Rightarrow> jsstring" where
  "join_nl [] = []"
| "join_nl [l] = l"
| "join_nl (l # m # ls) = l @ LF # join_nl (m # ls)"

text \<open>
  \<open>String(n)\<close> and \<open>n.toString()\<close> of a non-negative integer: its decimal digits. The
  numbers rendered here are line counts and the document index, which the model keeps as
  natural numbers (a JavaScript number is exact up to \<open>2^53\<close>).
\<close>

definition digit :: "nat \<Rightarrow> jschar" where
  "digit d = of_nat (48 + d)"

fun String :: "nat \<Rightarrow> jsstring" where
  "String n = (if n < 10 then [digit n] else String (n div 10) @ [digit (n mod 10)])"

declare String.simps [simp del]

text \<open>\<open>s.padStart(w, ' ')\<close>.\<close>

definition padStart :: "nat \<Rightarrow> jsstring \<Rightarrow> jsstring" where
  "padStart w s = replicate (w - length s) SPACE @ s"

text \<open>
  \<^verbatim>\<open>
  export function addLineNumbers(content: string): string {
    const lines = content.split('\n');
    if (lines.length === 0) return '';
    const numLines = lines.length;
    const padding = String(numLines).length;
    const numberedLines = lines.map((line, i) => {
      const num = (i + 1).toString().padStart(padding, ' ');
      return `${num}  ${line}`;
    });
    return numberedLines.join('\n');
  }
  \<close>
\<close>

definition addLineNumbers :: "jsstring \<Rightarrow> jsstring" where
  "addLineNumbers content =
     (let lines = split_nl content in
      if length lines = 0 then []
      else
        let numLines = length lines;
            padding = length (String numLines);
            numberedLines =
              map (\<lambda>(i, line). padStart padding (String (i + 1)) @ [SPACE, SPACE] @ line)
                (enumerate 0 lines)
        in join_nl numberedLines)"

text \<open>
  \<open>s.startsWith(p)\<close>, \<open>s.endsWith(e)\<close>, \<open>s.includes(needle)\<close> (here \<open>str_includes\<close>), \<open>s.trim()\<close> and
  \<open>s.toLowerCase()\<close>. Lower-casing is written out for the ASCII letters and for U+212A
  (KELVIN SIGN, which the built-in maps to \<open>k\<close>); every other code unit is left as it is.
  The built-in maps those to strings that still hold a non-ASCII code unit, so a lookup
  of the result among ASCII keys gives the same answer.
\<close>

fun startsWith :: "jsstring \<Rightarrow> jsstring \<Rightarrow> bool" where
  "startsWith s [] = True"
| "startsWith [] (p # ps) = False"
| "startsWith (c # cs) (p # ps) = (c = p \<and> startsWith cs ps)"

definition endsWith :: "jsstring \<Rightarrow> jsstring \<Rightarrow> bool" where
  "endsWith s e = startsWith (rev s) (rev e)"

fun str_includes :: "jsstring \<Rightarrow> jsstring \<Rightarrow> bool" where
  "str_includes [] needle = (needle = [])"
| "str_includes (c # cs) needle = (startsWith (c # cs) needle \<or> str_includes cs needle)"

definition js_space :: "jschar \<Rightarrow> bool" where
  "js_space c \<longleftrightarrow>
     c \<in> {0x09, 0x0A, 0x0B, 0x0C, 0x0D, 0x20, 0xA0, 0x1680, 0x2028, 0x2029, 0x202F, 0x205F,
          0x3000, 0xFEFF} \<or> (0x2000 \<le> c \<and> c \<le> 0x200A)"

definition trim :: "jsstring \<Rightarrow> jsstring" where
  "trim s = rev (dropWhile js_space (rev (dropWhile js_space s)))"

definition lower_unit :: "jschar \<Rightarrow> jschar" where
  "lower_unit c = (if 0x41 \<le> c \<and> c \<le> 0x5A then c + 0x20 else if c = 0x212A then 0x6B else c)"

definition toLowerCase :: "jsstring \<Rightarrow> jsstring" where
  "toLowerCase s = map lower_unit s"

text \<open>
  \<open>path.basename\<close> and \<open>path.extname\<close> of Node (POSIX) on a path held as a string: the
  last component, trailing slashes dropped, and its part from the last dot on; no
  extension when the component has no dot, starts with its only dot, or is \<open>..\<close>.
\<close>

definition basename :: "jsstring \<Rightarrow> jsstring" where
  "basename p =
     rev (takeWhile (\<lambda>c. c \<noteq> SLASH) (dropWhile (\<lambda>c. c = SLASH) (rev p)))"

definition extname :: "jsstring \<Rightarrow> jsstring" where
  "extname p =
     (let b = basename p;
          e = rev (takeWhile (\<lambda>c. c \<noteq> DOT) (rev b))
      in if DOT \<notin> set b \<or> length e + 1 = length b \<or> b = [DOT, DOT] then [] else DOT # e)"

section \<open>Document emitter (printing.ts)\<close>

text \<open>
  The module variable \<open>globalIndex\<close> and the line sink are the emitter's state. The
  \<open>writer\<close> callback is the collecting writer of the test suite: it appends the line
  to the list of lines written so far.
\<close>

record emitter =
  globalIndex :: nat
  sink :: "jsstring list"

definition writer :: "jsstring \<Rightarrow> 'a emitter_scheme \<Rightarrow> 'a emitter_scheme" where
  "writer line st = st\<lparr>sink := sink st @ [line]\<rparr>"

definition resetDocumentIndex :: "'a emitter_scheme \<Rightarrow> 'a emitter_scheme" where
  "resetDocumentIndex st = st\<lparr>globalIndex := 1\<rparr>"

definition writeMultiLine :: "jsstring \<Rightarrow> 'a emitter_scheme \<Rightarrow> 'a emitter_scheme" where
  "writeMultiLine content st = fold writer (split_nl content) st"

subsection \<open>JSON.stringify of the document object\<close>

text \<open>
  \<open>JSON.stringify\<close> is the built-in. On an object \<open>{index, source, content}\<close> with a
  number and two strings it writes the three members in that order; a string is quoted
  with the two-character escapes, \<open>\uXXXX\<close> (lower-case hexadecimal) for the other
  control characters and for a surrogate that is not half of a pair.
\<close>

abbreviation DQUOTE :: jschar where "DQUOTE \<equiv> 0x22"

definition hex_digit :: "nat \<Rightarrow> jschar" where
  "hex_digit d = (if d < 10 then of_nat (48 + d) else of_nat (87 + d))"

definition unicode_escape :: "jschar \<Rightarrow> jsstring" where
  "unicode_escape c =
     [BACKSLASH, 0x75, hex_digit (unat c div 4096), hex_digit (unat c div 256 mod 16),
      hex_digit (unat c div 16 mod 16), hex_digit (unat c mod 16)]"

definition quote_unit :: "jschar \<Rightarrow> jsstring" where
  "quote_unit c =
     (if c = 0x08 then [BACKSLASH, 0x62]
      else if c = 0x09 then [BACKSLASH, 0x74]
      else if c = LF then [BACKSLASH, 0x6E]
      else if c = 0x0C then [BACKSLASH, 0x66]
      else if c = 0x0D then [BACKSLASH, 0x72]
      else if c = DQUOTE then [BACKSLASH, DQUOTE]
      else if c = BACKSLASH then [BACKSLASH, BACKSLASH]
      else if c < 0x20 then unicode_escape c
      else [c])"

definition high_surrogate :: "jschar \<Rightarrow> bool" where
  "high_surrogate c \<longleftrightarrow> 0xD800 \<le> c \<and> c \<le> 0xDBFF"

definition low_surrogate :: "jschar \<Rightarrow> bool" where
  "low_surrogate c \<longleftrightarrow> 0xDC00 \<le> c \<and> c \<le> 0xDFFF"

fun quote_units :: "jsstring \<Rightarrow> jsstring" where
  "quote_units [] = []"
| "quote_units (c # cs) =
     (if high_surrogate c then
        (case cs of
           [] \<Rightarrow> unicode_escape c
         | d # ds \<Rightarrow>
             if low_surrogate d then c # d # quote_units ds
             else unicode_escape c @ quote_units cs)
      else if low_surrogate c then unicode_escape c @ quote_units cs
      else quote_unit c @ quote_units cs)"

definition JSON_string :: "jsstring \<Rightarrow> jsstring" where
  "JSON_string s = DQUOTE # quote_units s @ [DQUOTE]"

definition JSON_document :: "nat \<Rightarrow> jsstring \<Rightarrow> jsstring \<Rightarrow> jsstring" where
  "JSON_document index source content =
     js ''{'' @ JSON_string (js ''index'') @ js '':'' @ String index @ js '','' @
     JSON_string (js ''source'') @ js '':'' @ JSON_string source @ js '','' @
     JSON_string (js ''content'') @ js '':'' @ JSON_string content @ js ''}''"

subsection \<open>The four formats\<close>

text \<open>
  \<^verbatim>\<open>
  export function printAsJson(writer, filePath, content, lineNumbers): void {
    if (lineNumbers) { content = addLineNumbers(content); }
    const obj = { index: globalIndex, source: filePath, content };
    writer(JSON.stringify(obj));
    globalIndex++;
  }
  \<close>
\<close>

definition printAsJson ::
  "jsstring \<Rightarrow> jsstring \<Rightarrow> bool \<Rightarrow> 'a emitter_scheme \<Rightarrow> 'a emitter_scheme" where
  "printAsJson filePath content lineNumbers st =
     (let content' = (if lineNumbers then addLineNumbers content else content);
          st1 = writer (JSON_document (globalIndex st) filePath content') st
      in st1\<lparr>globalIndex := globalIndex st1 + 1\<rparr>)"

definition printDefault ::
  "jsstring \<Rightarrow> jsstring \<Rightarrow> bool \<Rightarrow> 'a emitter_scheme \<Rightarrow> 'a emitter_scheme" where
  "printDefault filePath content lineNumbers st =
     (let st1 = writer filePath st;
          st2 = writer (js ''---'') st1;
          content' = (if lineNumbers then addLineNumbers content else content);
          st3 = writeMultiLine content' st2;
          st4 = writer [] st3
      in writer (js ''---'') st4)"

text \<open>
  \<^verbatim>\<open>
  export function printAsXml(writer, filePath, content, lineNumbers): void {
    writer(`<document index="${globalIndex}">`);
    writer(`<source>${filePath}</source>`);
    writer('<document_content>');
    if (lineNumbers) { content = addLineNumbers(content); }
    writeMultiLine(writer, content);
    writer('</document_content>');
    writer('</document>');
    globalIndex++;
  }
  \<close>
\<close>

definition printAsXml ::
  "jsstring \<Rightarrow> jsstring \<Rightarrow> bool \<Rightarrow> 'a emitter_scheme \<Rightarrow> 'a emitter_scheme" where
  "printAsXml filePath content lineNumbers st =
     (let st1 = writer (js ''<document index='' @ [DQUOTE] @ String (globalIndex st) @ [DQUOTE]
                         @ js ''>'') st;
          st2 = writer (js ''<source>'' @ filePath @ js ''</source>'') st1;
          st3 = writer (js ''<document_content>'') st2;
          content' = (if lineNumbers then addLineNumbers content else content);
          st4 = writeMultiLine content' st3;
          st5 = writer (js ''</document_content>'') st4;
          st6 = writer (js ''</document>'') st5
      in st6\<lparr>globalIndex := globalIndex st6 + 1\<rparr>)"

subsection \<open>Markdown\<close>

text \<open>
  \<open>EXT_TO_LANG\<close> is an object literal, and \<open>EXT_TO_LANG[ext]\<close> is a property read: a key
  that the literal does not have is looked up on \<open>Object.prototype\<close>. \<open>Object_prototype\<close>
  lists those inherited properties with the text that the template literal
  \<open>`${backticks}${lang}`\<close> writes for each of them (Node prints a built-in function as
  \<open>function name() { [native code] }\<close>).
\<close>

definition EXT_TO_LANG :: "(jsstring \<times> jsstring) list" where
  "EXT_TO_LANG =
     [(js ''py'', js ''python''), (js ''c'', js ''c''), (js ''cpp'', js ''cpp''),
      (js ''java'', js ''java''), (js ''js'', js ''javascript''), (js ''ts'', js ''typescript''),
      (js ''html'', js ''html''), (js ''css'', js ''css''), (js ''xml'', js ''xml''),
      (js ''json'', js ''json''), (js ''yaml'', js ''yaml''), (js ''yml'', js ''yaml''),
      (js ''sh'', js ''bash''), (js ''rb'', js ''ruby''), (js ''md'', js ''markdown''),
      (js ''txt'', js ''text''), (js ''csv'', js ''csv''), (js ''jsonl'', js ''jsonl''),
      (js ''pl'', js ''perl'')]"

definition native_function :: "jsstring \<Rightarrow> jsstring" where
  "native_function name = js ''function '' @ name @ js ''() { [native code] }''"

definition Object_prototype :: "(jsstring \<times> jsstring) list" where
  "Object_prototype =
     (js ''constructor'', native_function (js ''Object'')) #
     (js ''__proto__'', js ''[object Object]'') #
     map (\<lambda>n. (n, native_function n))
       [js ''__defineGetter__'', js ''__defineSetter__'', js ''hasOwnProperty'',
        js ''__lookupGetter__'', js ''__lookupSetter__'', js ''isPrototypeOf'',
        js ''propertyIsEnumerable'', js ''toString'', js ''valueOf'', js ''toLocaleString'']"

text \<open>\<open>EXT_TO_LANG[ext] || ''\<close>, as the template literal renders it.\<close>

definition lang_tag :: "jsstring \<Rightarrow> jsstring" where
  "lang_tag ext =
     (case map_of EXT_TO_LANG ext of
        Some lang \<Rightarrow> lang
      | None \<Rightarrow> (case map_of Object_prototype ext of Some inherited \<Rightarrow> inherited | None \<Rightarrow> []))"

text \<open>
  \<^verbatim>\<open>
  let backticks = '```';
  while (content.includes(backticks)) {
    backticks += '`';
  }
  \<close>
  The loop ends because a string that includes the fence is at least as long as it.
\<close>

function grow_fence :: "jsstring \<Rightarrow> jsstring \<Rightarrow> jsstring" where
  "grow_fence content backticks =
     (if str_includes content backticks then grow_fence content (backticks @ [BACKTICK])
      else backticks)"
  by pat_completeness auto
termination
proof (relation "measure (\<lambda>(content, backticks). Suc (length content) - length backticks)")
  show "wf (measure (\<lambda>(content, backticks). Suc (length content) - length backticks))"
    by simp
next
  fix content backticks :: jsstring
  assume inc: "str_includes content backticks"
  have starts: "\<And>s p :: jsstring. startsWith s p \<Longrightarrow> length p \<le> length s"
  proof -
    fix s p :: jsstring
    show "startsWith s p \<Longrightarrow> length p \<le> length s"
      by (induction s p rule: startsWith.induct) auto
  qed
  have "\<And>b :: jsstring. str_includes content b \<Longrightarrow> length b \<le> length content"
  proof (induction content)
    case Nil
    then show ?case by simp
  next
    case (Cons c cs)
    then show ?case using starts[of "c # cs" b] by (auto intro: le_SucI)
  qed
  with inc have "length backticks \<le> length content" by blast
  then show "((content, backticks @ [BACKTICK]), (content, backticks))
      \<in> measure (\<lambda>(content, backticks). Suc (length content) - length backticks)"
    by simp
qed

declare grow_fence.simps [simp del]

text \<open>
  \<^verbatim>\<open>
  export function printAsMarkdown(writer, filePath, content, lineNumbers): void {
    writer(filePath);
    const ext = path.extname(filePath).substring(1).toLowerCase();
    const lang = EXT_TO_LANG[ext] || '';
    let backticks = '```';
    while (content.includes(backticks)) { backticks += '`'; }
    writer(`${backticks}${lang}`);
    if (lineNumbers) { content = addLineNumbers(content); }
    writeMultiLine(writer, content);
    writer(backticks);
  }
  \<close>
\<close>

definition printAsMarkdown ::
  "jsstring \<Rightarrow> jsstring \<Rightarrow> bool \<Rightarrow> 'a emitter_scheme \<Rightarrow> 'a emitter_scheme" where
  "printAsMarkdown filePath content lineNumbers st =
     (let st1 = writer filePath st;
          ext = toLowerCase (drop 1 (extname filePath));
          lang = lang_tag ext;
          backticks = grow_fence content (replicate 3 BACKTICK);
          st2 = writer (backticks @ lang) st1;
          content' = (if lineNumbers then addLineNumbers content else content);
          st3 = writeMultiLine content' st2
      in writer backticks st3)"

definition printPath ::
  "jsstring \<Rightarrow> jsstring \<Rightarrow> bool \<Rightarrow> bool \<Rightarrow> bool \<Rightarrow> 'a emitter_scheme \<Rightarrow> 'a emitter_scheme" where
  "printPath filePath content cxml markdown lineNumbers st =
     (if cxml then printAsXml filePath content lineNumbers st
      else if markdown then printAsMarkdown filePath content lineNumbers st
      else printDefault filePath content lineNumbers st)"

section \<open>Binary detector (utils.ts)\<close>

definition BINARY_EXTENSIONS :: "jsstring list" where
  "BINARY_EXTENSIONS = map js
     [''jpg'', ''jpeg'', ''png'', ''gif'', ''bmp'', ''webp'', ''ico'', ''tif'', ''tiff'', ''psd'',
      ''svg'', ''heic'', ''heif'', ''avif'',
      ''mp4'', ''m4v'', ''mov'', ''avi'', ''wmv'', ''mkv'', ''flv'', ''webm'', ''3gp'', ''3g2'',
      ''mp3'', ''wav'', ''flac'', ''aac'', ''ogg'', ''oga'', ''m4a'', ''opus'', ''mid'', ''midi'',
      ''pdf'',
      ''zip'', ''tar'', ''gz'', ''bz2'', ''xz'', ''7z'', ''rar'', ''iso'', ''dmg'', ''tgz'', ''tbz2'',
      ''txz'',
      ''ttf'', ''otf'', ''woff'', ''woff2'', ''eot'',
      ''exe'', ''dll'', ''so'', ''o'', ''a'', ''bin'', ''dat'', ''class'', ''jar'', ''wasm'',
      ''sqlite'', ''db'', ''realm'']"

text \<open>
  \<^verbatim>\<open>
  function isBinaryBuffer(buf: Buffer): boolean {
    const len = Math.min(buf.length, 512);
    let suspicious = 0;
    for (let i = 0; i < len; i++) {
      const c = buf[i];
      if (c === 0) return true; // NUL byte => binary
      if (c < 7 || (c > 13 && c < 32) || c > 127) {
        suspicious++;
        if (suspicious / len > 0.3) return true;
      }
    }
    return false;
  }
  \<close>
  \<open>scan_buffer len suspicious bs\<close> is the loop with \<open>bs\<close> the bytes from index \<open>i\<close> on.
  The test \<open>suspicious / len > 0.3\<close> divides two integers of at most 512 in double
  precision; a quotient other than 3/10 differs from it by at least 1/5120, far more than
  the rounding of the division and of the literal, and the quotient 3/10 rounds to the
  literal itself, so the test is \<open>10 * suspicious > 3 * len\<close>.
\<close>

definition suspicious_byte :: "byte \<Rightarrow> bool" where
  "suspicious_byte c \<longleftrightarrow> c < 7 \<or> (c > 13 \<and> c < 32) \<or> c > 127"

fun scan_buffer :: "nat \<Rightarrow> nat \<Rightarrow> byte list \<Rightarrow> bool" where
  "scan_buffer len suspicious [] = False"
| "scan_buffer len suspicious (c # bs) =
     (if c = 0 then True
      else if suspicious_byte c then
        (if 10 * (suspicious + 1) > 3 * len then True else scan_buffer len (suspicious + 1) bs)
      else scan_buffer len suspicious bs)"

definition isBinaryBuffer :: "byte list \<Rightarrow> bool" where
  "isBinaryBuffer buf = (let len = min (length buf) 512 in scan_buffer len 0 (take len buf))"

section \<open>Filesystem\<close>

text \<open>
  A path is the string the program holds. \<open>path.join\<close> is the POSIX one of Node: the
  arguments that are not empty are joined with a slash and the result is normalised, so
  \<open>path.join('.', 'a')\<close> is \<open>a\<close> and \<open>path.join('r/', 'a')\<close> is \<open>r/a\<close>:
  \<^verbatim>\<open>
  join(...args) {
    let joined;
    for (const arg of args) if (arg.length > 0) joined = joined === undefined ? arg : `${joined}/${arg}`;
    if (joined === undefined) return '.';
    return posix.normalize(joined);
  }
  normalize(path) {
    if (path.length === 0) return '.';
    const isAbsolute = path.charCodeAt(0) === CHAR_FORWARD_SLASH;
    const trailingSeparator = path.charCodeAt(path.length - 1) === CHAR_FORWARD_SLASH;
    path = normalizeString(path, !isAbsolute, '/', isPosixPathSeparator);
    if (path.length === 0) { if (isAbsolute) return '/'; return trailingSeparator ? './' : '.'; }
    if (trailingSeparator) path += '/';
    return isAbsolute ? `/${path}` : path;
  }
  \<close>
  \<open>normalizeString\<close> goes through the segments between the slashes: an empty segment and
  \<open>.\<close> are dropped, \<open>..\<close> removes the segment before it unless there is none or it is
  \<open>..\<close> itself (then \<open>..\<close> is kept when the path is relative), and every other segment is
  kept.
\<close>

type_synonym path = jsstring

fun split_slash :: "jsstring \<Rightarrow> jsstring list" where
  "split_slash [] = [[]]"
| "split_slash (c # cs) =
     (if c = SLASH then [] # split_slash cs
      else (case split_slash cs of [] \<Rightarrow> [[c]] | s # ss \<Rightarrow> (c # s) # ss))"

fun join_slash :: "jsstring list \<Rightarrow> jsstring" where
  "join_slash [] = []"
| "join_slash [s] = s"
| "join_slash (s # t # ss) = s @ SLASH # join_slash (t # ss)"

definition normalize_segment :: "bool \<Rightarrow> jsstring list \<Rightarrow> jsstring \<Rightarrow> jsstring list" where
  "normalize_segment allowAboveRoot res seg =
     (if seg = [] \<or> seg = [DOT] then res
      else if seg = [DOT, DOT] then
        (if res \<noteq> [] \<and> last res \<noteq> [DOT, DOT] then butlast res
         else if allowAboveRoot then res @ [[DOT, DOT]]
         else res)
      else res @ [seg])"

definition normalizeString :: "jsstring \<Rightarrow> bool \<Rightarrow> jsstring" where
  "normalizeString p allowAboveRoot =
     join_slash (foldl (normalize_segment allowAboveRoot) [] (split_slash p))"

definition path_normalize :: "path \<Rightarrow> path" where
  "path_normalize p =
     (if p = [] then [DOT]
      else
        let isAbsolute = (hd p = SLASH);
            trailingSeparator = (last p = SLASH);
            q = normalizeString p (\<not> isAbsolute)
        in if q = [] then (if isAbsolute then [SLASH] else if trailingSeparator then [DOT, SLASH] else [DOT])
           else (if isAbsolute then [SLASH] else []) @ q @ (if trailingSeparator then [SLASH] else []))"

definition path_join :: "path \<Rightarrow> jsstring \<Rightarrow> path" where
  "path_join a b =
     (if a = [] \<and> b = [] then [DOT]
      else if a = [] then path_normalize b
      else if b = [] then path_normalize a
      else path_normalize (a @ SLASH # b))"

text \<open>
  A directory entry is a file or a directory with its own entries, in the order
  \<open>readdirSync\<close> returns them (symbolic links are not modelled). What the program can
  observe of a file are three calls, each of which may fail on its own: the open and
  read of \<open>isBinaryFile\<close>, \<open>statSync(p).size\<close> and \<open>readFileSync(p, 'utf8')\<close>. A file
  that has vanished since the enumeration is one whose read fails with \<open>ENOENT\<close>. A
  directory that cannot be listed makes \<open>readdirSync\<close> throw.
\<close>

datatype read_result = Content jsstring | ENOENT | EOTHER

record filedata =
  f_bytes :: "byte list option"
  f_size :: "nat option"
  f_read :: read_result

datatype node = File jsstring filedata | Dir jsstring bool "node list"

fun node_name :: "node \<Rightarrow> jsstring" where
  "node_name (File n f) = n"
| "node_name (Dir n listable es) = n"

fun isDirectory :: "node \<Rightarrow> bool" where
  "isDirectory (File n f) = False"
| "isDirectory (Dir n listable es) = True"

text \<open>
  The filesystem calls and the emissions of a run, in order: \<open>readdirSync\<close> of a
  directory, the read of a \<open>.gitignore\<close> by \<open>readGitignore\<close>, the open of
  \<open>isBinaryFile\<close>, the \<open>statSync\<close> of the size limit, the \<open>readFileSync\<close> of a file's
  content, and the hand-over of a document to the emitter.
\<close>

datatype event =
  ReadDir path | ReadRules path | Sniff path | StatSize path | ReadFile path | Emit path

fun event_path :: "event \<Rightarrow> path" where
  "event_path (ReadDir p) = p"
| "event_path (ReadRules p) = p"
| "event_path (Sniff p) = p"
| "event_path (StatSize p) = p"
| "event_path (ReadFile p) = p"
| "event_path (Emit p) = p"

text \<open>An event that opens, stats or emits a file as a document.\<close>

fun document_event :: "event \<Rightarrow> bool" where
  "document_event (ReadDir p) = False"
| "document_event (ReadRules p) = False"
| "document_event e = True"

text \<open>
  \<^verbatim>\<open>
  export function isBinaryFile(fullPath: string): boolean {
    const ext = path.extname(fullPath).slice(1).toLowerCase();
    if (ext && BINARY_EXTENSIONS.has(ext)) return true;
    try {
      const fd = fs.openSync(fullPath, 'r');
      try {
        const buf = Buffer.alloc(512);
        const bytesRead = fs.readSync(fd, buf, 0, 512, 0);
        return isBinaryBuffer(buf.subarray(0, bytesRead));
      } finally { fs.closeSync(fd); }
    } catch { return false; }
  }
  \<close>
  The result comes with the filesystem calls made.
\<close>

definition isBinaryFile :: "path \<Rightarrow> filedata \<Rightarrow> bool \<times> event list" where
  "isBinaryFile fullPath f =
     (let ext = toLowerCase (drop 1 (extname fullPath)) in
      if ext \<noteq> [] \<and> ext \<in> set BINARY_EXTENSIONS then (True, [])
      else
        (case f_bytes f of
           None \<Rightarrow> (False, [Sniff fullPath])
         | Some bytes \<Rightarrow> (isBinaryBuffer (take 512 bytes), [Sniff fullPath])))"

section \<open>Ignore rules (utils.ts)\<close>

definition DEFAULT_IGNORES :: "jsstring list" where
  "DEFAULT_IGNORES = [js ''.env'', js ''.env.*'', js ''.env*'', js ''.gitignore'']"

text \<open>
  \<^verbatim>\<open>
  export function shouldIgnore(fullPath: string, rules: string[]): boolean {
    const basename = path.basename(fullPath);
    const stats = fs.existsSync(fullPath) ? fs.statSync(fullPath) : null;
    const isDir = stats?.isDirectory() ?? false;
    for (const rule of rules) {
      if (fnmatch(basename, rule) || (isDir && fnmatch(basename + '/', rule))) return true;
    }
    return false;
  }
  \<close>
  \<open>isDir\<close> is what the stat of the path says; it is taken to agree with the enumeration
  (the window between \<open>existsSync\<close> and \<open>statSync\<close> is not modelled).
\<close>

definition shouldIgnore :: "path \<Rightarrow> bool \<Rightarrow> jsstring list \<Rightarrow> bool" where
  "shouldIgnore fullPath isDir rules =
     (let base = basename fullPath in
      list_ex (\<lambda>rule. fnmatch base rule \<or> (isDir \<and> fnmatch (base @ [SLASH]) rule)) rules)"

text \<open>
  \<^verbatim>\<open>
  export function readGitignore(dir: string): string[] {
    const gitignorePath = path.join(dir, '.gitignore');
    if (fs.existsSync(gitignorePath)) {
      try {
        const content = fs.readFileSync(gitignorePath, 'utf8');
        return content.split('\n').map((line) => line.trim())
          .filter((line) => line && !line.startsWith('#'));
      } catch { return []; }
    }
    return [];
  }
  \<close>
  The directory is given with its entries; the result comes with the filesystem calls made.
\<close>

definition parse_gitignore :: "jsstring \<Rightarrow> jsstring list" where
  "parse_gitignore content =
     filter (\<lambda>line. line \<noteq> [] \<and> \<not> startsWith line (js ''#'')) (map trim (split_nl content))"

definition readGitignore :: "path \<Rightarrow> node list \<Rightarrow> jsstring list \<times> event list" where
  "readGitignore dir entries =
     (let gitignorePath = path_join dir (js ''.gitignore'') in
      case find (\<lambda>d. node_name d = js ''.gitignore'') entries of
        None \<Rightarrow> ([], [])
      | Some (File n f) \<Rightarrow>
          (case f_read f of
             Content content \<Rightarrow> (parse_gitignore content, [ReadRules gitignorePath])
           | ENOENT \<Rightarrow> ([], [ReadRules gitignorePath])
           | EOTHER \<Rightarrow> ([], [ReadRules gitignorePath]))
      | Some (Dir n listable es) \<Rightarrow> ([], [ReadRules gitignorePath]))"

section \<open>Directory walker (walker.ts)\<close>

text \<open>
  The arguments of \<open>walkDir\<close> and \<open>processPath\<close> that a run never changes, with the
  fields of \<open>options\<close>. \<open>ig\<close> is the matcher of the \<open>ignore\<close> package, a parameter: for a
  path \<open>p\<close> it gives the outcome of \<open>ig.ignores(path.relative(process.cwd(), p))\<close>, which
  is an answer or an exception (\<open>None\<close>). The package throws on a path that does not
  lie below the working directory: one that, made relative, is empty, is \<open>..\<close> or begins
  with \<open>../\<close>.
\<close>

record config =
  extensions :: "jsstring list"
  includeHidden :: bool
  ignoreFilesOnly :: bool
  ignoreGitignore :: bool
  ignorePatterns :: "jsstring list"
  ig :: "(path \<Rightarrow> bool option) option"
  cxml :: bool
  markdown :: bool
  lineNumbers :: bool
  json :: bool
  quiet :: bool
  pathMapper :: "(jsstring \<Rightarrow> jsstring) option"
  maxFiles :: "int option"
  maxSize :: "nat option"

text \<open>
  What a run changes: the emitter, the one \<open>gitignoreRules\<close> array that every call
  receives by reference, \<open>options.counter\<close> (absent or an object with a count), the lines
  written with \<open>console.error\<close>, the events so far, and whether an exception is
  propagating.
\<close>

record wstate = emitter +
  gitignoreRules :: "jsstring list"
  counter :: "nat option"
  stderr :: "jsstring list"
  trace :: "event list"
  thrown :: bool

definition log_events :: "event list \<Rightarrow> wstate \<Rightarrow> wstate" where
  "log_events es st = st\<lparr>trace := trace st @ es\<rparr>"

definition console_error :: "config \<Rightarrow> jsstring \<Rightarrow> wstate \<Rightarrow> wstate" where
  "console_error cfg line st = (if quiet cfg then st else st\<lparr>stderr := stderr st @ [line]\<rparr>)"

text \<open>
  \<open>options.maxFiles !== undefined && options.counter && options.counter.count >= options.maxFiles\<close>
\<close>

definition reached_maxFiles :: "config \<Rightarrow> wstate \<Rightarrow> bool" where
  "reached_maxFiles cfg st =
     (case maxFiles cfg of
        None \<Rightarrow> False
      | Some m \<Rightarrow> (case counter st of None \<Rightarrow> False | Some count \<Rightarrow> int count \<ge> m))"

text \<open>
  \<^verbatim>\<open>
  const displayPath = options.pathMapper ? options.pathMapper(filePath) : filePath;
  if (json) { printAsJson(writer, displayPath, content, lineNumbers); }
  else { printPath(writer, displayPath, content, cxml, markdown, lineNumbers); }
  if (options.counter) options.counter.count++;
  \<close>
\<close>

definition emit_document :: "config \<Rightarrow> path \<Rightarrow> jsstring \<Rightarrow> wstate \<Rightarrow> wstate" where
  "emit_document cfg filePath content st =
     (let displayPath =
            (case pathMapper cfg of None \<Rightarrow> filePath | Some f \<Rightarrow> f filePath);
          st1 = log_events [Emit filePath] st;
          st2 = (if json cfg then printAsJson displayPath content (lineNumbers cfg) st1
                 else printPath displayPath content (cxml cfg) (markdown cfg) (lineNumbers cfg) st1)
      in st2\<lparr>counter := map_option Suc (counter st2)\<rparr>)"

text \<open>
  The body of the \<open>try\<close> block for one file and its \<open>catch\<close>, the same in the loop of
  \<open>walkDir\<close> (where a skip is \<open>continue\<close>) and in \<open>processPath\<close> (where it is \<open>return\<close>):
  \<^verbatim>\<open>
  try {
    if (isBinaryFile(filePath)) { continue; }
    if (options.maxSize !== undefined) {
      try {
        const st = fs.statSync(filePath);
        if (st.size > options.maxSize) {
          if (!options.quiet) { console.error(`Warning: Skipping file ... due to size > ... bytes`); }
          continue;
        }
      } catch {}
    }
    const content = fs.readFileSync(filePath, 'utf8');
    ... emit ...
  } catch (err: any) {
    if (err && err.code === 'ENOENT') { /* Ignore missing files */ }
    else { if (!options.quiet) { console.error(`Warning: Skipping file ... due to encoding error`); } }
  }
  \<close>
\<close>

definition size_warning :: "path \<Rightarrow> nat \<Rightarrow> jsstring" where
  "size_warning filePath m =
     js ''Warning: Skipping file '' @ filePath @ js '' due to size > '' @ String m
       @ js '' bytes''"

definition read_warning :: "path \<Rightarrow> jsstring" where
  "read_warning filePath =
     js ''Warning: Skipping file '' @ filePath @ js '' due to encoding error''"

definition read_and_emit :: "config \<Rightarrow> path \<Rightarrow> filedata \<Rightarrow> wstate \<Rightarrow> wstate" where
  "read_and_emit cfg filePath f st =
     (let st1 = log_events [ReadFile filePath] st in
      case f_read f of
        Content content \<Rightarrow> emit_document cfg filePath content st1
      | ENOENT \<Rightarrow> st1
      | EOTHER \<Rightarrow> console_error cfg (read_warning filePath) st1)"

definition try_file :: "config \<Rightarrow> path \<Rightarrow> filedata \<Rightarrow> wstate \<Rightarrow> wstate" where
  "try_file cfg filePath f st =
     (let (binary, calls) = isBinaryFile filePath f;
          st1 = log_events calls st
      in if binary then st1
         else
           (case maxSize cfg of
              None \<Rightarrow> read_and_emit cfg filePath f st1
            | Some m \<Rightarrow>
                (let st2 = log_events [StatSize filePath] st1 in
                 case f_size f of
                   None \<Rightarrow> read_and_emit cfg filePath f st2
                 | Some file_size \<Rightarrow>
                     if file_size > m then console_error cfg (size_warning filePath m) st2
                     else read_and_emit cfg filePath f st2)))"

text \<open>
  \<^verbatim>\<open>
  let dirents = fs.readdirSync(root, { withFileTypes: true });
  if (!includeHidden) { dirents = dirents.filter((d) => !d.name.startsWith('.')); }
  \<close>
\<close>

definition visible_entries :: "config \<Rightarrow> node list \<Rightarrow> node list" where
  "visible_entries cfg entries =
     (if \<not> includeHidden cfg then filter (\<lambda>d. \<not> startsWith (node_name d) (js ''.'')) entries
      else entries)"

text \<open>
  \<^verbatim>\<open>
  if (ig) { ... } else {
    if (!ignoreGitignore) { gitignoreRules.push(...readGitignore(root)); }
    ...
  }
  \<close>
\<close>

definition load_gitignore :: "config \<Rightarrow> path \<Rightarrow> node list \<Rightarrow> wstate \<Rightarrow> wstate" where
  "load_gitignore cfg root entries st =
     (if ig cfg = None \<and> \<not> ignoreGitignore cfg then
        (let (rules, calls) = readGitignore root entries
         in (log_events calls st)\<lparr>gitignoreRules := gitignoreRules st @ rules\<rparr>)
      else st)"

text \<open>
  With a project-root matcher, \<open>walkDir\<close> asks it about every listed directory and then
  about every listed file, outside any \<open>try\<close>; an exception of the matcher leaves
  \<open>walkDir\<close> before any file is opened:
  \<^verbatim>\<open>
  if (ig) {
    const relSubdirs = subdirs.map((d) => path.relative(process.cwd(), d));
    subdirs = subdirs.filter((d, idx) => !ig!.ignores(relSubdirs[idx]));
    const relFiles = files.map((f) => path.relative(process.cwd(), path.join(root, f)));
    files = files.filter((_, idx) => !ig!.ignores(relFiles[idx]));
  }
  \<close>
\<close>

definition matcher_throws :: "config \<Rightarrow> path \<Rightarrow> node list \<Rightarrow> bool" where
  "matcher_throws cfg root entries =
     (case ig cfg of
        None \<Rightarrow> False
      | Some ignores \<Rightarrow>
          list_ex (\<lambda>d. ignores (path_join root (node_name d)) = None) (visible_entries cfg entries))"

text \<open>
  The directories that \<open>walkDir\<close> keeps when the matcher has not thrown, with \<open>rules\<close>
  the content of \<open>gitignoreRules\<close> after the push:
  \<^verbatim>\<open>
  for (const dirent of dirents) { if (dirent.isDirectory()) subdirs.push(path.join(root, dirent.name)); ... }
  if (ig) {
    subdirs = subdirs.filter((d, idx) => !ig.ignores(relSubdirs[idx]));
  } else {
    if (gitignoreRules.length > 0) { subdirs = subdirs.filter((d) => !shouldIgnore(d, gitignoreRules)); }
  }
  const combinedIgnorePatterns = [...DEFAULT_IGNORES, ...ignorePatterns];
  if (combinedIgnorePatterns.length > 0) {
    if (!ignoreFilesOnly) {
      subdirs = subdirs.filter((d) => !combinedIgnorePatterns.some((p) => fnmatch(path.basename(d), p)));
    }
  }
  \<close>
\<close>

definition surviving_subdirs :: "config \<Rightarrow> jsstring list \<Rightarrow> path \<Rightarrow> node list \<Rightarrow> node list" where
  "surviving_subdirs cfg rules root entries =
     (let subdirs = filter isDirectory (visible_entries cfg entries);
          subdirs =
            (case ig cfg of
               Some ignores \<Rightarrow>
                 filter (\<lambda>d. ignores (path_join root (node_name d)) = Some False) subdirs
             | None \<Rightarrow>
                 if rules \<noteq> []
                 then filter (\<lambda>d. \<not> shouldIgnore (path_join root (node_name d)) True rules) subdirs
                 else subdirs);
          combinedIgnorePatterns = DEFAULT_IGNORES @ ignorePatterns cfg
      in if combinedIgnorePatterns \<noteq> [] \<and> \<not> ignoreFilesOnly cfg
         then filter (\<lambda>d. \<not> list_ex (\<lambda>p. fnmatch (basename (path_join root (node_name d))) p)
                              combinedIgnorePatterns) subdirs
         else subdirs)"

text \<open>
  The files that \<open>walkDir\<close> keeps when the matcher has not thrown, in the order of
  its loop:
  \<^verbatim>\<open>
  for (const dirent of dirents) { if (dirent.isDirectory()) ... else files.push(dirent.name); }
  if (!includeHidden) { files = files.filter((f) => !f.startsWith('.')); }
  if (ig) {
    files = files.filter((_, idx) => !ig.ignores(relFiles[idx]));
  } else {
    if (gitignoreRules.length > 0) {
      files = files.filter((f) => !shouldIgnore(path.join(root, f), gitignoreRules));
    }
  }
  if (combinedIgnorePatterns.length > 0) {
    files = files.filter((f) => !combinedIgnorePatterns.some((p) => fnmatch(f, p)));
  }
  if (extensions.length > 0) {
    files = files.filter((f) => extensions.some((ext) => f.endsWith(ext)));
  }
  files.sort();
  \<close>
  \<open>sort\<close> without a comparator orders strings by their code units.
\<close>

definition surviving_files :: "config \<Rightarrow> jsstring list \<Rightarrow> path \<Rightarrow> node list \<Rightarrow> node list" where
  "surviving_files cfg rules root entries =
     (let files = filter (\<lambda>d. \<not> isDirectory d) (visible_entries cfg entries);
          files =
            (if \<not> includeHidden cfg
             then filter (\<lambda>f. \<not> startsWith (node_name f) (js ''.'')) files else files);
          files =
            (case ig cfg of
               Some ignores \<Rightarrow>
                 filter (\<lambda>f. ignores (path_join root (node_name f)) = Some False) files
             | None \<Rightarrow>
                 if rules \<noteq> []
                 then filter (\<lambda>f. \<not> shouldIgnore (path_join root (node_name f)) False rules) files
                 else files);
          combinedIgnorePatterns = DEFAULT_IGNORES @ ignorePatterns cfg;
          files =
            (if combinedIgnorePatterns \<noteq> []
             then filter (\<lambda>f. \<not> list_ex (\<lambda>p. fnmatch (node_name f) p) combinedIgnorePatterns) files
             else files);
          files =
            (if extensions cfg \<noteq> []
             then filter (\<lambda>f. list_ex (\<lambda>ext. endsWith (node_name f) ext) (extensions cfg)) files
             else files)
      in sort_key node_name files)"

text \<open>
  The loop over the files. The second component says whether the loop left \<open>walkDir\<close>
  with \<open>return\<close>:
  \<^verbatim>\<open>
  for (const file of files) {
    const filePath = path.join(root, file);
    if (options.maxFiles !== undefined && options.counter && options.counter.count >= options.maxFiles) {
      return;
    }
    try { ... } catch (err: any) { ... }
  }
  \<close>
\<close>

fun walk_files :: "config \<Rightarrow> path \<Rightarrow> node list \<Rightarrow> wstate \<Rightarrow> wstate \<times> bool" where
  "walk_files cfg root [] st = (st, False)"
| "walk_files cfg root (d # ds) st =
     (if reached_maxFiles cfg st then (st, True)
      else walk_files cfg root ds
             (case d of
                File name f \<Rightarrow> try_file cfg (path_join root name) f st
              | Dir name listable es \<Rightarrow> st))"

text \<open>
  \<open>walkDir\<close> on a directory given with its entries. After the loop over the files:
  \<^verbatim>\<open>
  for (const subdir of subdirs) {
    walkDir(subdir, extensions, includeHidden, ignoreFilesOnly, ignoreGitignore, gitignoreRules,
      ignorePatterns, ig, writer, cxml, markdown, lineNumbers, json, options);
  }
  \<close>
  An exception of \<open>readdirSync\<close>, of the matcher or of a recursive call ends the loops
  of all its callers.
\<close>

function walkDir :: "config \<Rightarrow> path \<Rightarrow> bool \<Rightarrow> node list \<Rightarrow> wstate \<Rightarrow> wstate" where
  "walkDir cfg root listable entries st =
     (if \<not> listable then (log_events [ReadDir root] st)\<lparr>thrown := True\<rparr>
      else if matcher_throws cfg root entries then (log_events [ReadDir root] st)\<lparr>thrown := True\<rparr>
      else
        let st1 = load_gitignore cfg root entries (log_events [ReadDir root] st);
            rules = gitignoreRules st1;
            (st2, returned) = walk_files cfg root (surviving_files cfg rules root entries) st1
        in if returned then st2
           else fold (\<lambda>subdir st'.
                        if thrown st' then st'
                        else (case subdir of
                                Dir name l es \<Rightarrow> walkDir cfg (path_join root name) l es st'
                              | File name f \<Rightarrow> st'))
                  (surviving_subdirs cfg rules root entries) st2)"
  by pat_completeness auto
termination
proof -
  have kept: "d \<in> set entries"
    if "d \<in> set (surviving_subdirs cfg rules root entries)"
    for d cfg rules root entries
    using that
    by (auto simp: surviving_subdirs_def visible_entries_def Let_def split: option.splits if_splits)
  have smaller: "size_list size es < size_list size entries"
    if "Dir name l es \<in> set entries" for name l es and entries :: "node list"
  proof -
    from that have "size (Dir name l es) \<le> size_list size entries"
      by (rule size_list_estimation') simp
    then show ?thesis by simp
  qed
  have "size_list size es < size_list size entries"
    if "Dir name l es \<in> set (surviving_subdirs cfg rules root entries)"
    for name l es cfg rules root entries
    using that by (blast intro: kept smaller)
  then show ?thesis
    by (relation "measure (\<lambda>(cfg, root, listable, entries, st). size_list size entries)") auto
qed

declare walkDir.simps [simp del]

text \<open>
  \<^verbatim>\<open>
  export function processPath(p, ...): void {
    if (fs.existsSync(p)) {
      const stats = fs.statSync(p);
      if (stats.isFile()) {
        const combinedIgnorePatterns = [...DEFAULT_IGNORES, ...ignorePatterns];
        const rel = path.relative(process.cwd(), p);
        if ((ig && ig.ignores(rel)) || shouldIgnore(p, gitignoreRules)
            || shouldIgnore(p, combinedIgnorePatterns)) { return; }
        try { ... } catch (err: any) { ... }
      } else if (stats.isDirectory()) {
        walkDir(p, ...);
      }
    }
  }
  \<close>
  The path is given with what the filesystem has there, if anything. An exception of
  the matcher leaves \<open>processPath\<close>.
\<close>

definition processPath :: "config \<Rightarrow> path \<Rightarrow> node option \<Rightarrow> wstate \<Rightarrow> wstate" where
  "processPath cfg p target st =
     (case target of
        None \<Rightarrow> st
      | Some (File n f) \<Rightarrow>
          (let combinedIgnorePatterns = DEFAULT_IGNORES @ ignorePatterns cfg in
           case (case ig cfg of Some ignores \<Rightarrow> ignores p | None \<Rightarrow> Some False) of
             None \<Rightarrow> st\<lparr>thrown := True\<rparr>
           | Some ignored \<Rightarrow>
               if ignored \<or> shouldIgnore p False (gitignoreRules st)
                  \<or> shouldIgnore p False combinedIgnorePatterns
               then st
               else try_file cfg p f st)
      | Some (Dir n listable es) \<Rightarrow> walkDir cfg p listable es st)"

section \<open>Definitions used in the proofs\<close>

text \<open>The pieces that the regular expression of a pattern parses to, read off the pattern.\<close>

fun pieces_of :: "jsstring \<Rightarrow> piece list" where
  "pieces_of [] = []"
| "pieces_of (c # cs) =
     (if c = STAR then Many AnyChar # pieces_of cs
      else if c = QMARK then Once AnyChar # pieces_of cs
      else Once (Lit c) # pieces_of cs)"

definition translate :: "jsstring \<Rightarrow> jsstring" where
  "translate p = replace_qmark (replace_star (escape_special p))"

text \<open>The number that a string of decimal digits denotes.\<close>

definition decimal_value :: "jsstring \<Rightarrow> nat" where
  "decimal_value s = foldl (\<lambda>a c. 10 * a + (unat c - 48)) 0 s"

text \<open>
  A run of the emitter in the indexed formats is a sequence of calls of \<open>printAsXml\<close> and
  \<open>printAsJson\<close>, each with its path, content and line-number flag. \<open>rendered k call\<close> are
  the lines of a document that carries the index \<open>k\<close>.
\<close>

datatype doc_call = XmlDoc jsstring jsstring bool | JsonDoc jsstring jsstring bool

fun emit_call :: "doc_call \<Rightarrow> 'a emitter_scheme \<Rightarrow> 'a emitter_scheme" where
  "emit_call (XmlDoc filePath content numbered) st = printAsXml filePath content numbered st"
| "emit_call (JsonDoc filePath content numbered) st = printAsJson filePath content numbered st"

definition emit_calls :: "doc_call list \<Rightarrow> 'a emitter_scheme \<Rightarrow> 'a emitter_scheme" where
  "emit_calls calls st = fold emit_call calls st"

fun rendered :: "nat \<Rightarrow> doc_call \<Rightarrow> jsstring list" where
  "rendered k (XmlDoc filePath content numbered) =
     [js ''<document index='' @ [DQUOTE] @ String k @ [DQUOTE] @ js ''>'',
      js ''<source>'' @ filePath @ js ''</source>'',
      js ''<document_content>'']
     @ split_nl (if numbered then addLineNumbers content else content)
     @ [js ''</document_content>'', js ''</document>'']"
| "rendered k (JsonDoc filePath content numbered) =
     [JSON_document k filePath (if numbered then addLineNumbers content else content)]"

text \<open>The number of bytes of a sample that are outside the text range.\<close>

definition suspicious_count :: "byte list \<Rightarrow> nat" where
  "suspicious_count bs = length (filter suspicious_byte bs)"

text \<open>The events that a step adds to the trace.\<close>

definition new_events :: "wstate \<Rightarrow> wstate \<Rightarrow> event list" where
  "new_events st st' = drop (length (trace st)) (trace st')"

text \<open>
  A name that \<open>readdirSync\<close> can return: not empty, without a slash, and neither \<open>.\<close> nor
  \<open>..\<close>. \<open>dirent_names\<close> says that every name of a tree is one.
\<close>

definition dirent_name :: "jsstring \<Rightarrow> bool" where
  "dirent_name n \<longleftrightarrow> n \<noteq> [] \<and> SLASH \<notin> set n \<and> n \<noteq> [DOT] \<and> n \<noteq> [DOT, DOT]"

fun dirent_names :: "node \<Rightarrow> bool" where
  "dirent_names (File n f) = dirent_name n"
| "dirent_names (Dir n listable es) = (dirent_name n \<and> list_all dirent_names es)"

text \<open>
  A path that a rule source of a walk excludes, given gitignore rules and whether the
  path is a directory: the project-root matcher answers true when there is one, and
  otherwise a gitignore rule matches its basename; or a pattern of the default denylist
  or a custom pattern matches its basename, which for a directory counts only when
  \<open>ignoreFilesOnly\<close> is off.
\<close>

definition excluded :: "config \<Rightarrow> jsstring list \<Rightarrow> bool \<Rightarrow> path \<Rightarrow> bool" where
  "excluded cfg rules isDir p \<longleftrightarrow>
     (case ig cfg of Some ignores \<Rightarrow> ignores p = Some True | None \<Rightarrow> shouldIgnore p isDir rules)
     \<or> ((\<not> isDir \<or> \<not> ignoreFilesOnly cfg)
          \<and> list_ex (\<lambda>pattern. fnmatch (basename p) pattern)
               (DEFAULT_IGNORES @ ignorePatterns cfg))"

text \<open>The entries that \<open>readGitignore\<close> adds for a directory, when it is called.\<close>

definition own_rules :: "config \<Rightarrow> path \<Rightarrow> node list \<Rightarrow> jsstring list" where
  "own_rules cfg root entries =
     (if ig cfg = None \<and> \<not> ignoreGitignore cfg then fst (readGitignore root entries) else [])"

text \<open>
  \<open>allowed cfg rules root entries e\<close>: the event \<open>e\<close> is one of a walk of the directory
  \<open>root\<close> with these entries, started with the gitignore rules \<open>rules\<close>, that opens no
  excluded path below \<open>root\<close>. Such a walk lists \<open>root\<close>; it reads the \<open>.gitignore\<close> of
  \<open>root\<close> when there is no project-root matcher and gitignore processing is on; it
  sniffs, stats, reads and emits the files of \<open>root\<close> that are not excluded; and it goes
  on in the same way in the subdirectories of \<open>root\<close> that are not excluded. The rules
  that count in a directory are those the walk started with and the \<open>.gitignore\<close> entries
  of the directories from \<open>root\<close> down to it.
\<close>

function allowed :: "config \<Rightarrow> jsstring list \<Rightarrow> path \<Rightarrow> node list \<Rightarrow> event \<Rightarrow> bool" where
  "allowed cfg rules root entries e =
     (e = ReadDir root \<or>
      (e = ReadRules (path_join root (js ''.gitignore'')) \<and> ig cfg = None \<and> \<not> ignoreGitignore cfg) \<or>
      list_ex
        (\<lambda>d. \<not> excluded cfg (rules @ own_rules cfg root entries) (isDirectory d)
                  (path_join root (node_name d)) \<and>
              (case d of
                 File name f \<Rightarrow> document_event e \<and> event_path e = path_join root name
               | Dir name l es \<Rightarrow>
                   allowed cfg (rules @ own_rules cfg root entries) (path_join root name) es e))
        entries)"
  by pat_completeness auto
termination
proof -
  have "size_list size es < size_list size entries"
    if "Dir name l es \<in> set entries" for name l es and entries :: "node list"
  proof -
    from that have "size (Dir name l es) \<le> size_list size entries"
      by (rule size_list_estimation') simp
    then show ?thesis by simp
  qed
  then show ?thesis
    by (relation "measure (\<lambda>(cfg, rules, root, entries, e). size_list size entries)") auto
qed

declare allowed.simps [simp del]

text \<open>
  A step from \<open>st\<close> to \<open>st'\<close> that adds only events allowed in a walk of \<open>root\<close> started
  with the rules \<open>rules\<close>, and that only appends to the gitignore rules.
\<close>

definition allowed_step ::
  "config \<Rightarrow> jsstring list \<Rightarrow> path \<Rightarrow> node list \<Rightarrow> wstate \<Rightarrow> wstate \<Rightarrow> bool" where
  "allowed_step cfg rules root entries st st' \<longleftrightarrow>
     (\<exists>es. trace st' = trace st @ es \<and> (\<forall>e \<in> set es. allowed cfg rules root entries e)) \<and>
     (\<exists>rs. gitignoreRules st' = gitignoreRules st @ rs)"











text \<open>
  Concrete inputs for the examples: a configuration with every option off (no
  project-root matcher, gitignore processing on, hidden entries included, default
  format), the state at the start of a run with a counter, and a readable text file.
\<close>

definition plain_config :: config where
  "plain_config =
     \<lparr>extensions = [], includeHidden = True, ignoreFilesOnly = False, ignoreGitignore = False,
      ignorePatterns = [], ig = None, cxml = False, markdown = False, lineNumbers = False,
      json = False, quiet = False, pathMapper = None, maxFiles = None, maxSize = None\<rparr>"

definition fresh_state :: wstate where
  "fresh_state =
     \<lparr>globalIndex = 1, sink = [], gitignoreRules = [], counter = Some 0, stderr = [],
      trace = [], thrown = False\<rparr>"

definition text_file :: "jsstring \<Rightarrow> filedata" where
  "text_file content =
     \<lparr>f_bytes = Some (map ucast content), f_size = Some (length content),
      f_read = Content content\<rparr>"

text \<open>A step that writes nothing, counts nothing and touches no file as a document.\<close>

definition idle_step :: "wstate \<Rightarrow> wstate \<Rightarrow> bool" where
  "idle_step st st' \<longleftrightarrow>
     counter st' = counter st \<and> sink st' = sink st \<and> globalIndex st' = globalIndex st \<and>
     stderr st' = stderr st \<and>
     (\<exists>es. trace st' = trace st @ es \<and> (\<forall>e \<in> set es. \<not> document_event e))"

text \<open>
  A step that writes whole indexed documents only: the lines added are those of some
  calls of \<open>printAsXml\<close> and \<open>printAsJson\<close> rendered with consecutive indices from
  \<open>globalIndex\<close> on, the index advances by their number, and there is one call for each
  \<open>Emit\<close> event added.
\<close>

fun emits :: "event \<Rightarrow> bool" where
  "emits (Emit p) = True"
| "emits e = False"

definition indexed_step :: "wstate \<Rightarrow> wstate \<Rightarrow> bool" where
  "indexed_step st st' \<longleftrightarrow>
     (\<exists>calls es.
        sink st' = sink st @ concat (map (\<lambda>(k, c). rendered k c) (enumerate (globalIndex st) calls)) \<and>
        globalIndex st' = globalIndex st + length calls \<and>
        trace st' = trace st @ es \<and> length (filter emits es) = length calls)"

text \<open>A step that counts up, and not beyond the limit \<open>m\<close> unless it started there.\<close>

definition counted_within :: "int \<Rightarrow> wstate \<Rightarrow> wstate \<Rightarrow> bool" where
  "counted_within m st st' \<longleftrightarrow>
     (\<exists>c c'. counter st = Some c \<and> counter st' = Some c' \<and> c \<le> c' \<and> int c' \<le> max m (int c))"

section \<open>The pattern matcher is a glob matcher\<close>

lemma translate_Nil: "translate [] = []"
  by (simp add: translate_def)

lemma translate_Cons:
  "translate (c # cs) =
     (if c = STAR then DOT # STAR # translate cs
      else if c = QMARK then DOT # translate cs
      else if regex_special c then BACKSLASH # c # translate cs
      else c # translate cs)"
  by (auto simp: translate_def regex_special_def)

lemma translate_no_star: "translate cs = s # r \<Longrightarrow> s \<noteq> STAR"
  by (cases cs) (auto simp: translate_Nil translate_Cons regex_special_def split: if_splits)

text \<open>Every pattern gives a regular expression of the modelled fragment.\<close>

lemma parse_translate: "parse_pieces (translate p) = Some (pieces_of p)"
proof (induction p)
  case Nil
  show ?case by (simp add: translate_Nil)
next
  case (Cons c cs)
  show ?case
  proof (cases "translate cs")
    case Nil
    with Cons show ?thesis
      by (auto simp: translate_Cons syntax_char_def regex_special_def)
  next
    case (Cons s r)
    then have "s \<noteq> STAR" by (rule translate_no_star)
    with Cons Cons.IH show ?thesis
      by (auto simp: translate_Cons syntax_char_def regex_special_def)
  qed
qed

lemma RegExp_test_regexStr:
  "RegExp_test (regexStr p) n = Some (pieces_match (pieces_of p) n)"
  by (simp add: RegExp_test_def regexStr_def translate_def[symmetric] parse_translate)

lemma pieces_glob:
  "pieces_match (pieces_of p) n = glob_matches (\<lambda>c. \<not> line_terminator c) p n"
  by (induction "\<lambda>c. \<not> line_terminator c" p n rule: glob_matches.induct) auto

text \<open>
  \<open>fnmatch\<close> is the glob matcher whose wildcards match the characters other than line
  terminators.
\<close>

lemma fnmatch_glob:
  "fnmatch name pattern = glob_matches (\<lambda>c. \<not> line_terminator c) pattern name"
  by (simp add: fnmatch_def RegExp_test_regexStr pieces_glob)

declare fnmatch_glob [code]

lemma glob_matches_all: "\<forall>c \<in> set n. ok c \<Longrightarrow> glob_matches ok p n = glob_matches (\<lambda>c. True) p n"
  by (induction ok p n rule: glob_matches.induct) auto

text \<open>On a name without line terminators \<open>fnmatch\<close> is the matcher of the specification.\<close>

lemma fnmatch_spec_matches:
  "\<forall>c \<in> set name. \<not> line_terminator c \<Longrightarrow> fnmatch name pattern = spec_matches name pattern"
  using glob_matches_all[of name "\<lambda>c. \<not> line_terminator c" pattern]
  by (simp add: fnmatch_glob spec_matches_def)

text \<open>The examples of the test suite.\<close>

lemma fnmatch_examples:
  "fnmatch (js ''file.txt'') (js ''*.txt'')"
  "\<not> fnmatch (js ''file.txt'') (js ''*.md'')"
  "fnmatch (js ''a.js'') (js ''?.js'')"
  "\<not> fnmatch (js ''ab.js'') (js ''?.js'')"
  "fnmatch (js ''README.md'') (js ''README.md'')"
  "\<not> fnmatch (js ''readme.md'') (js ''README.md'')"
  by (simp_all add: fnmatch_glob js_def line_terminator_def)

text \<open>
  C5. The claim: for every name and pattern, \<open>fnmatch\<close> holds iff the whole name matches
  the pattern with \<open>*\<close> for zero or more characters, \<open>?\<close> for exactly one character and
  every other character for itself. The name \<open>a\nb\<close> matches the pattern \<open>*\<close> in that
  sense, and \<open>fnmatch\<close> rejects it: the \<open>.\<close> of the regular expression does not match a
  line terminator.
\<close>

theorem fnmatch_rejects_newline_name:
  "spec_matches [0x61, LF, 0x62] (js ''*'') \<and> \<not> fnmatch [0x61, LF, 0x62] (js ''*'')"
  by (simp add: spec_matches_def fnmatch_glob js_def line_terminator_def)

section \<open>Line numbering\<close>

lemma String_small: "n < 10 \<Longrightarrow> String n = [digit n]"
  by (simp add: String.simps)

lemma String_large: "\<not> n < 10 \<Longrightarrow> String n = String (n div 10) @ [digit (n mod 10)]"
  by (subst String.simps) simp

lemma digit_value: "d < 10 \<Longrightarrow> unat (digit d) - 48 = d"
  by (simp add: digit_def unat_of_nat del: of_nat_add)

text \<open>\<open>String n\<close> is the decimal numeral of \<open>n\<close>, and its length is the decimal width.\<close>

lemma decimal_String: "decimal_value (String n) = n"
proof (induction n rule: String.induct)
  case (1 n)
  show ?case
  proof (cases "n < 10")
    case True
    then show ?thesis by (simp add: String_small decimal_value_def digit_value)
  next
    case False
    with 1 have "decimal_value (String (n div 10)) = n div 10" by simp
    with False show ?thesis by (simp add: String_large decimal_value_def digit_value)
  qed
qed

lemma String_upper: "n < 10 ^ length (String n)"
proof (induction n rule: String.induct)
  case (1 n)
  show ?case
  proof (cases "n < 10")
    case True
    then show ?thesis by (simp add: String_small)
  next
    case False
    with 1 have "n div 10 < 10 ^ length (String (n div 10))" by simp
    then have "n < 10 * 10 ^ length (String (n div 10))" by simp
    with False show ?thesis by (simp add: String_large)
  qed
qed

lemma String_lower: "0 < n \<Longrightarrow> 10 ^ (length (String n) - 1) \<le> n"
proof (induction n rule: String.induct)
  case (1 n)
  show ?case
  proof (cases "n < 10")
    case True
    with 1(2) show ?thesis by (simp add: String_small)
  next
    case False
    then have pos: "0 < n div 10" by simp
    with 1(1)[OF False] have "10 ^ (length (String (n div 10)) - 1) \<le> n div 10" by simp
    then have "10 * 10 ^ (length (String (n div 10)) - 1) \<le> n" by simp
    moreover have "length (String (n div 10)) > 0" by (subst String.simps) simp
    ultimately show ?thesis
      using False by (simp add: String_large power_Suc[symmetric] del: power_Suc)
  qed
qed

lemma length_String_mono: "m \<le> n \<Longrightarrow> length (String m) \<le> length (String n)"
proof (induction n arbitrary: m rule: String.induct)
  case (1 n)
  show ?case
  proof (cases "n < 10")
    case True
    with 1 show ?thesis by (simp add: String_small)
  next
    case False
    show ?thesis
    proof (cases "m < 10")
      case True
      with False show ?thesis by (simp add: String_small String_large)
    next
      case mbig: False
      have "m div 10 \<le> n div 10" using 1(2) by (simp add: div_le_mono)
      with 1(1)[OF False] have "length (String (m div 10)) \<le> length (String (n div 10))"
        by blast
      with False mbig show ?thesis by (simp add: String_large)
    qed
  qed
qed

lemma digit_not_LF: "d < 10 \<Longrightarrow> digit d \<noteq> LF"
proof -
  assume "d < 10"
  then have "d \<in> {0, 1, 2, 3, 4, 5, 6, 7, 8, 9}" by auto
  then show ?thesis by (auto simp: digit_def)
qed

lemma String_no_LF: "LF \<notin> set (String n)"
proof (induction n rule: String.induct)
  case (1 n)
  show ?case
  proof (cases "n < 10")
    case True
    then show ?thesis by (simp add: String_small digit_not_LF[symmetric] del: of_nat_add)
  next
    case False
    then show ?thesis
      using 1 digit_not_LF[of "n mod 10"] by (auto simp add: String_large simp del: of_nat_add)
  qed
qed

text \<open>Splitting on newline and joining with newline.\<close>

lemma split_nl_nonempty: "split_nl s \<noteq> []"
  by (induction s) (auto split: list.splits)

lemma split_nl_no_LF: "l \<in> set (split_nl s) \<Longrightarrow> LF \<notin> set l"
  by (induction s arbitrary: l) (auto split: list.splits if_splits)

lemma split_nl_line: "LF \<notin> set l \<Longrightarrow> split_nl l = [l]"
  by (induction l) auto

lemma split_nl_append: "LF \<notin> set l \<Longrightarrow> split_nl (l @ LF # r) = l # split_nl r"
  by (induction l) (auto simp: split_nl_nonempty split: list.splits)

lemma split_join:
  "ls \<noteq> [] \<Longrightarrow> \<forall>l \<in> set ls. LF \<notin> set l \<Longrightarrow> split_nl (join_nl ls) = ls"
  by (induction ls rule: join_nl.induct) (auto simp: split_nl_line split_nl_append)

lemma join_split: "join_nl (split_nl s) = s"
proof (induction s)
  case Nil
  show ?case by simp
next
  case (Cons c cs)
  then show ?case
    by (cases "split_nl cs"; cases "tl (split_nl cs)") (auto simp: split_nl_nonempty)
qed

lemma addLineNumbers_eq:
  "addLineNumbers content =
     join_nl (map (\<lambda>(i, line).
                padStart (length (String (length (split_nl content)))) (String (i + 1))
                  @ [SPACE, SPACE] @ line)
        (enumerate 0 (split_nl content)))"
  by (simp add: addLineNumbers_def Let_def split_nl_nonempty)

lemma split_addLineNumbers:
  "split_nl (addLineNumbers content) =
     map (\<lambda>(i, line).
            padStart (length (String (length (split_nl content)))) (String (i + 1))
              @ [SPACE, SPACE] @ line)
       (enumerate 0 (split_nl content))"
  unfolding addLineNumbers_eq
proof (rule split_join)
  show "map (\<lambda>(i, line).
               padStart (length (String (length (split_nl content)))) (String (i + 1))
                 @ [SPACE, SPACE] @ line)
          (enumerate 0 (split_nl content)) \<noteq> []"
    by (simp add: enumerate_eq_zip split_nl_nonempty)
  show "\<forall>l\<in>set (map (\<lambda>(i, line).
                     padStart (length (String (length (split_nl content)))) (String (i + 1))
                       @ [SPACE, SPACE] @ line)
                (enumerate 0 (split_nl content))). LF \<notin> set l"
    using split_nl_no_LF[of _ content]
    by (auto simp: padStart_def String_no_LF in_set_enumerate_eq)
qed

text \<open>
  C6. For every content: the numbered text has as many lines as the content; with \<open>w\<close>
  the number of decimal digits of the line count, line \<open>i\<close> (counted from 0) is the
  decimal numeral of \<open>i + 1\<close> padded on the left with spaces to \<open>w\<close> characters, then
  two spaces, then line \<open>i\<close> of the content, and no numeral is wider than \<open>w\<close>; the
  result is these lines joined with newlines. \<open>addLineNumbers("hello")\<close> is
  \<open>"1  hello"\<close>, and of the ten lines \<open>a\<close> to \<open>j\<close> the first becomes \<open>" 1  a"\<close> and the
  tenth \<open>"10  j"\<close>.
\<close>

theorem addLineNumbers_numbers_every_line:
  fixes content :: jsstring
  defines "ls \<equiv> split_nl content"
  defines "w \<equiv> length (String (length ls))"
  shows
    "length ls < 10 ^ w \<and> 10 ^ (w - 1) \<le> length ls \<and>
     length (split_nl (addLineNumbers content)) = length ls \<and>
     (\<forall>i < length ls.
        split_nl (addLineNumbers content) ! i =
          replicate (w - length (String (i + 1))) SPACE @ String (i + 1) @ js ''  '' @ ls ! i
        \<and> decimal_value (String (i + 1)) = i + 1
        \<and> length (String (i + 1)) \<le> w) \<and>
     addLineNumbers content = join_nl (split_nl (addLineNumbers content)) \<and>
     addLineNumbers (js ''hello'') = js ''1  hello'' \<and>
     split_nl (addLineNumbers
        [0x61, LF, 0x62, LF, 0x63, LF, 0x64, LF, 0x65, LF, 0x66, LF, 0x67, LF, 0x68, LF, 0x69,
         LF, 0x6A]) ! 0 = js '' 1  a'' \<and>
     split_nl (addLineNumbers
        [0x61, LF, 0x62, LF, 0x63, LF, 0x64, LF, 0x65, LF, 0x66, LF, 0x67, LF, 0x68, LF, 0x69,
         LF, 0x6A]) ! 9 = js ''10  j''"
proof -
  have pos: "0 < length ls"
    by (simp add: ls_def split_nl_nonempty)
  have width: "length ls < 10 ^ w \<and> 10 ^ (w - 1) \<le> length ls"
    unfolding w_def using pos String_lower[of "length ls"] by (simp add: String_upper)
  have len: "length (split_nl (addLineNumbers content)) = length ls"
    by (simp add: split_addLineNumbers ls_def)
  have each: "\<forall>i < length ls.
        split_nl (addLineNumbers content) ! i =
          replicate (w - length (String (i + 1))) SPACE @ String (i + 1) @ js ''  '' @ ls ! i
        \<and> decimal_value (String (i + 1)) = i + 1
        \<and> length (String (i + 1)) \<le> w"
    unfolding w_def ls_def
    by (auto simp: split_addLineNumbers nth_enumerate_eq padStart_def js_def decimal_String
        intro: length_String_mono)
  have joined: "addLineNumbers content = join_nl (split_nl (addLineNumbers content))"
    by (simp add: join_split)
  have hello: "addLineNumbers (js ''hello'') = js ''1  hello''"
    by code_simp
  have first: "split_nl (addLineNumbers
        [0x61, LF, 0x62, LF, 0x63, LF, 0x64, LF, 0x65, LF, 0x66, LF, 0x67, LF, 0x68, LF, 0x69,
         LF, 0x6A]) ! 0 = js '' 1  a''"
    by code_simp
  have tenth: "split_nl (addLineNumbers
        [0x61, LF, 0x62, LF, 0x63, LF, 0x64, LF, 0x65, LF, 0x66, LF, 0x67, LF, 0x68, LF, 0x69,
         LF, 0x6A]) ! 9 = js ''10  j''"
    by code_simp
  from width len each joined hello first tenth show ?thesis by blast
qed

theorem addLineNumbers_numbers_every_line_witness:
  "(1::nat) < length (split_nl [0x61, LF, 0x62]) \<and>
   split_nl (addLineNumbers [0x61, LF, 0x62]) ! 1 = js ''2  b''"
proof -
  have lines: "split_nl [0x61, LF, 0x62 :: jschar] = [[0x61], [0x62]]"
    by simp
  then have len: "(1::nat) < length (split_nl [0x61, LF, 0x62 :: jschar])"
    by simp
  have two: "String (Suc (Suc 0)) = [0x32]" "String 2 = [0x32]"
    by (simp_all add: String_small digit_def)
  from addLineNumbers_numbers_every_line[of "[0x61, LF, 0x62]"]
  have "\<forall>i < length (split_nl [0x61, LF, 0x62 :: jschar]).
          split_nl (addLineNumbers [0x61, LF, 0x62]) ! i =
            replicate (length (String (length (split_nl [0x61, LF, 0x62 :: jschar])))
                        - length (String (i + 1))) SPACE
              @ String (i + 1) @ js ''  '' @ split_nl [0x61, LF, 0x62] ! i
          \<and> decimal_value (String (i + 1)) = i + 1
          \<and> length (String (i + 1))
              \<le> length (String (length (split_nl [0x61, LF, 0x62 :: jschar])))"
    by blast
  with len have "split_nl (addLineNumbers [0x61, LF, 0x62]) ! 1 =
            replicate (length (String (length (split_nl [0x61, LF, 0x62 :: jschar])))
                        - length (String (1 + 1))) SPACE
              @ String (1 + 1) @ js ''  '' @ split_nl [0x61, LF, 0x62] ! 1"
    by blast
  then have "split_nl (addLineNumbers [0x61, LF, 0x62]) ! 1 = js ''2  b''"
    by (simp add: two js_def)
  with len show ?thesis by blast
qed

section \<open>Document indices\<close>

lemma sink_writer [simp]: "sink (writer l st) = sink st @ [l]"
  and globalIndex_writer [simp]: "globalIndex (writer l st) = globalIndex st"
  by (simp_all add: writer_def)

lemma sink_fold_writer: "sink (fold writer ls st) = sink st @ ls"
  by (induction ls arbitrary: st) auto

lemma globalIndex_fold_writer: "globalIndex (fold writer ls st) = globalIndex st"
  by (induction ls arbitrary: st) auto

lemma sink_writeMultiLine [simp]: "sink (writeMultiLine c st) = sink st @ split_nl c"
  by (simp add: writeMultiLine_def sink_fold_writer)

lemma globalIndex_writeMultiLine [simp]: "globalIndex (writeMultiLine c st) = globalIndex st"
  by (simp add: writeMultiLine_def globalIndex_fold_writer)

lemma emit_call_sink: "sink (emit_call c st) = sink st @ rendered (globalIndex st) c"
  by (cases c) (simp_all add: printAsXml_def printAsJson_def Let_def)

lemma emit_call_index: "globalIndex (emit_call c st) = globalIndex st + 1"
  by (cases c) (simp_all add: printAsXml_def printAsJson_def Let_def)

lemma emit_calls_index: "globalIndex (emit_calls cs st) = globalIndex st + length cs"
  unfolding emit_calls_def
  by (induction cs arbitrary: st) (auto simp: emit_call_index)

lemma emit_calls_sink:
  "sink (emit_calls cs st) =
     sink st @ concat (map (\<lambda>(k, c). rendered k c) (enumerate (globalIndex st) cs))"
  unfolding emit_calls_def
  by (induction cs arbitrary: st) (auto simp: emit_call_index emit_call_sink)

lemma reset_fields [simp]: "globalIndex (resetDocumentIndex st) = 1" "sink (resetDocumentIndex st) = sink st"
  by (simp_all add: resetDocumentIndex_def)

section \<open>Markdown fences\<close>

text \<open>
  The fence is the shortest run of three or more backticks that the content does not
  include: every shorter run of at least three is included.
\<close>

lemma grow_fence_shortest:
  "\<exists>k\<ge>n. grow_fence content (replicate n BACKTICK) = replicate k BACKTICK \<and>
          \<not> str_includes content (replicate k BACKTICK) \<and>
          (\<forall>m. n \<le> m \<and> m < k \<longrightarrow> str_includes content (replicate m BACKTICK))"
proof (induction content "replicate n BACKTICK" arbitrary: n rule: grow_fence.induct)
  case (1 content)
  show ?case
  proof (cases "str_includes content (replicate n BACKTICK)")
    case False
    then have "grow_fence content (replicate n BACKTICK) = replicate n BACKTICK"
      by (subst grow_fence.simps) simp
    with False show ?thesis by auto
  next
    case True
    have step: "replicate n BACKTICK @ [BACKTICK] = replicate (Suc n) BACKTICK"
      by (simp add: replicate_append_same)
    from 1[OF True step] obtain k where k: "Suc n \<le> k"
      "grow_fence content (replicate (Suc n) BACKTICK) = replicate k BACKTICK"
      "\<not> str_includes content (replicate k BACKTICK)"
      "\<forall>m. Suc n \<le> m \<and> m < k \<longrightarrow> str_includes content (replicate m BACKTICK)"
      by blast
    from True have "grow_fence content (replicate n BACKTICK)
        = grow_fence content (replicate (Suc n) BACKTICK)"
      by (subst grow_fence.simps) (simp add: step)
    moreover have "\<forall>m. n \<le> m \<and> m < k \<longrightarrow> str_includes content (replicate m BACKTICK)"
    proof (intro allI impI)
      fix m assume "n \<le> m \<and> m < k"
      then show "str_includes content (replicate m BACKTICK)"
        using True k(4) by (cases "m = n") auto
    qed
    ultimately show ?thesis using k by (intro exI[of _ k]) auto
  qed
qed

lemma printAsMarkdown_sink:
  "sink (printAsMarkdown filePath content numbered st) =
     sink st @ [filePath,
                grow_fence content (replicate 3 BACKTICK)
                  @ lang_tag (toLowerCase (drop 1 (extname filePath)))]
       @ split_nl (if numbered then addLineNumbers content else content)
       @ [grow_fence content (replicate 3 BACKTICK)]"
  by (simp add: printAsMarkdown_def Let_def writer_def writeMultiLine_def sink_fold_writer)

lemma lang_tag_examples:
  "lang_tag (js ''ts'') = js ''typescript''"
  "lang_tag (js ''py'') = js ''python''"
  "lang_tag (js ''zig'') = []"
  by code_simp+

lemma fence_examples:
  "grow_fence (js ''a```b'') (replicate 3 BACKTICK) = js ''````''"
  "grow_fence (js ''a````b'') (replicate 3 BACKTICK) = js ''`````''"
  "grow_fence (js ''a``b'') (replicate 3 BACKTICK) = js ''```''"
  by code_simp+

lemma test_markdown:
  "sink (printAsMarkdown (js ''/tmp/example.ts'') (js ''const x = 1;'' @ [LF]) False \<lparr>globalIndex = 1, sink = []\<rparr>)
     = [js ''/tmp/example.ts'', js ''```typescript'', js ''const x = 1;'', [], js ''```'']"
  by code_simp

text \<open>The language tag is empty exactly for the extensions that are no property.\<close>

lemma lang_tag_empty:
  "lang_tag ext = [] \<longleftrightarrow> ext \<notin> fst ` set EXT_TO_LANG \<and> ext \<notin> fst ` set Object_prototype"
proof -
  have table: "v \<noteq> []" if "(k, v) \<in> set EXT_TO_LANG" for k v
    using that by (auto simp: EXT_TO_LANG_def js_def)
  have inherited: "v \<noteq> []" if "(k, v) \<in> set Object_prototype" for k v
    using that by (auto simp: Object_prototype_def native_function_def js_def)
  show ?thesis
  proof (cases "map_of EXT_TO_LANG ext")
    case (Some l)
    then have mem: "(ext, l) \<in> set EXT_TO_LANG" by (rule map_of_SomeD)
    then have "l \<noteq> []" by (rule table)
    moreover from mem have "fst (ext, l) \<in> fst ` set EXT_TO_LANG" by (rule imageI)
    moreover from Some have "lang_tag ext = l" by (simp add: lang_tag_def)
    ultimately show ?thesis by simp
  next
    case None
    then have no: "ext \<notin> fst ` set EXT_TO_LANG" by (simp add: map_of_eq_None_iff)
    show ?thesis
    proof (cases "map_of Object_prototype ext")
      case (Some v)
      then have mem: "(ext, v) \<in> set Object_prototype" by (rule map_of_SomeD)
      then have "v \<noteq> []" by (rule inherited)
      moreover from mem have "fst (ext, v) \<in> fst ` set Object_prototype" by (rule imageI)
      moreover from None Some have "lang_tag ext = v" by (simp add: lang_tag_def)
      ultimately show ?thesis by simp
    next
      case n2: None
      then have "ext \<notin> fst ` set Object_prototype" by (simp add: map_of_eq_None_iff)
      with None n2 no show ?thesis by (simp add: lang_tag_def)
    qed
  qed
qed

text \<open>
  C7. The claim: the fence is the shortest run of three or more backticks not in the
  content (\<open>grow_fence_shortest\<close>, \<open>printAsMarkdown_sink\<close>), and the opening fence carries
  the language of the extension table, nothing for an unknown extension. The file
  \<open>notes.constructor\<close> has an extension that the table does not list, and its opening
  fence carries the text of the property \<open>constructor\<close> that the table object inherits.
\<close>

theorem printAsMarkdown_inherited_property_tag:
  "sink (printAsMarkdown (js ''notes.constructor'') (js ''x'') False \<lparr>globalIndex = 1, sink = []\<rparr>)
     = [js ''notes.constructor'', js ''```function Object() { [native code] }'', js ''x'',
        js ''```'']"
  by code_simp

section \<open>Binary detection\<close>

text \<open>The loop of \<open>isBinaryBuffer\<close> in closed form.\<close>

lemma scan_buffer_eq:
  "10 * s \<le> 3 * len \<Longrightarrow>
   scan_buffer len s bs \<longleftrightarrow> 0 \<in> set bs \<or> 3 * len < 10 * (s + suspicious_count bs)"
proof (induction bs arbitrary: s)
  case Nil
  then show ?case by (simp add: suspicious_count_def)
next
  case (Cons c bs)
  show ?case
  proof (cases "c = 0")
    case True
    then show ?thesis by simp
  next
    case nonzero: False
    show ?thesis
    proof (cases "suspicious_byte c")
      case False
      with nonzero Cons show ?thesis by (auto simp: suspicious_count_def)
    next
      case True
      show ?thesis
      proof (cases "3 * len < 10 * (s + 1)")
        case True
        with nonzero \<open>suspicious_byte c\<close> show ?thesis by (auto simp: suspicious_count_def)
      next
        case False
        then have "10 * (s + 1) \<le> 3 * len" by simp
        from Cons.IH[OF this] nonzero \<open>suspicious_byte c\<close> False show ?thesis
          by (auto simp: suspicious_count_def)
      qed
    qed
  qed
qed

lemma isBinaryBuffer_eq:
  "isBinaryBuffer buf \<longleftrightarrow>
     0 \<in> set (take 512 buf) \<or> 3 * length (take 512 buf) < 10 * suspicious_count (take 512 buf)"
proof -
  have sample: "take (min (length buf) 512) buf = take 512 buf"
    by (simp add: min_def)
  have "scan_buffer (min (length buf) 512) 0 (take 512 buf) \<longleftrightarrow>
          0 \<in> set (take 512 buf)
          \<or> 3 * min (length buf) 512 < 10 * (0 + suspicious_count (take 512 buf))"
    by (rule scan_buffer_eq) simp
  then show ?thesis
    by (simp add: isBinaryBuffer_def sample)
qed

lemma text_bytes:
  "\<not> suspicious_byte 9" "\<not> suspicious_byte 10" "\<not> suspicious_byte 13"
  by (simp_all add: suspicious_byte_def)

lemma suspicious_byte_unat:
  "suspicious_byte c \<longleftrightarrow> unat c < 7 \<or> (13 < unat c \<and> unat c < 32) \<or> 127 < unat c"
  by (simp add: suspicious_byte_def word_less_nat_alt)

text \<open>
  The binary detector on the examples of the specification: a \<open>.png\<close> whose bytes are
  text, a file without extension with a NUL byte, and a plain text of several lines.
\<close>

lemma binary_examples:
  "isBinaryFile (js ''pic.png'') (text_file (js ''plain text'')) = (True, [])"
  "fst (isBinaryFile (js ''data'') \<lparr>f_bytes = Some [0x61, 0x62, 0x00, 0x63], f_size = Some 4,
                                     f_read = Content []\<rparr>)"
  "\<not> fst (isBinaryFile (js ''notes.txt'') (text_file (js ''one'' @ [LF] @ js ''two'' @ [LF])))"
  by code_simp+

text \<open>
  C8. For every path and file: when the lower-cased extension is in
  \<open>BINARY_EXTENSIONS\<close>, \<open>isBinaryFile\<close> answers true and makes no filesystem call.
  Otherwise it opens the file; a file that cannot be opened is not binary, and one that
  can is binary iff its first 512 bytes hold a NUL byte or more than 30% of them are
  outside the text range. The text range is the bytes 7 to 13 (among them tab, newline
  and carriage return) and 32 to 127; the bytes from 128 on and the other control bytes
  are outside.
\<close>

theorem isBinaryFile_extension_then_sniff:
  fixes fullPath :: path and f :: filedata
  defines "ext \<equiv> toLowerCase (drop 1 (extname fullPath))"
  shows
    "(ext \<noteq> [] \<and> ext \<in> set BINARY_EXTENSIONS \<longrightarrow> isBinaryFile fullPath f = (True, [])) \<and>
     (\<not> (ext \<noteq> [] \<and> ext \<in> set BINARY_EXTENSIONS) \<longrightarrow>
        snd (isBinaryFile fullPath f) = [Sniff fullPath] \<and>
        (f_bytes f = None \<longrightarrow> \<not> fst (isBinaryFile fullPath f)) \<and>
        (\<forall>bytes. f_bytes f = Some bytes \<longrightarrow>
           (fst (isBinaryFile fullPath f) \<longleftrightarrow>
              0 \<in> set (take 512 bytes) \<or>
              3 * length (take 512 bytes) < 10 * suspicious_count (take 512 bytes)))) \<and>
     (\<forall>c. suspicious_byte c \<longleftrightarrow> unat c < 7 \<or> (13 < unat c \<and> unat c < 32) \<or> 127 < unat c)"
  unfolding ext_def
  by (auto simp: isBinaryFile_def Let_def isBinaryBuffer_eq suspicious_byte_unat split: option.splits)

theorem isBinaryFile_extension_then_sniff_witness:
  "isBinaryFile (js ''a.png'') \<lparr>f_bytes = None, f_size = None, f_read = ENOENT\<rparr> = (True, []) \<and>
   \<not> fst (isBinaryFile (js ''notes'') \<lparr>f_bytes = None, f_size = None, f_read = ENOENT\<rparr>) \<and>
   fst (isBinaryFile (js ''notes'') \<lparr>f_bytes = Some [0x61, 0], f_size = Some 2, f_read = Content []\<rparr>)"
proof -
  have png: "toLowerCase (drop 1 (extname (js ''a.png''))) = js ''png''"
    by code_simp
  have listed: "js ''png'' \<in> set BINARY_EXTENSIONS" "js ''png'' \<noteq> []"
    by code_simp+
  have none: "toLowerCase (drop 1 (extname (js ''notes''))) = []"
    by code_simp
  from isBinaryFile_extension_then_sniff[of "(js ''a.png'')"
      "\<lparr>f_bytes = None, f_size = None, f_read = ENOENT\<rparr>"] png listed
  have by_extension:
    "isBinaryFile (js ''a.png'') \<lparr>f_bytes = None, f_size = None, f_read = ENOENT\<rparr> = (True, [])"
    by simp
  from isBinaryFile_extension_then_sniff[of "(js ''notes'')"
      "\<lparr>f_bytes = None, f_size = None, f_read = ENOENT\<rparr>"] none
  have unopened:
    "\<not> fst (isBinaryFile (js ''notes'') \<lparr>f_bytes = None, f_size = None, f_read = ENOENT\<rparr>)"
    by simp
  from isBinaryFile_extension_then_sniff[of "(js ''notes'')"
      "\<lparr>f_bytes = Some [0x61, 0], f_size = Some 2, f_read = Content []\<rparr>"] none
  have nul:
    "fst (isBinaryFile (js ''notes'') \<lparr>f_bytes = Some [0x61, 0], f_size = Some 2, f_read = Content []\<rparr>)"
    by simp
  from by_extension unopened nul show ?thesis by blast
qed

section \<open>Paths\<close>

lemma split_slash_nonempty: "split_slash s \<noteq> []"
  by (induction s) (auto split: list.splits)

lemma split_slash_append: "split_slash (a @ SLASH # b) = split_slash a @ split_slash b"
  using split_slash_nonempty by (induction a) (auto split: list.splits)

lemma split_slash_plain: "SLASH \<notin> set n \<Longrightarrow> split_slash n = [n]"
  by (induction n) auto

lemma normalize_plain:
  "dirent_name n \<Longrightarrow>
   foldl (normalize_segment a) res (xs @ [n]) = foldl (normalize_segment a) res xs @ [n]"
  by (simp add: dirent_name_def normalize_segment_def)

lemma join_slash_snoc:
  "join_slash (ys @ [n]) = (if ys = [] then n else join_slash ys @ SLASH # n)"
  by (induction ys rule: join_slash.induct) auto

lemma basename_suffix:
  assumes "n \<noteq> []" and "SLASH \<notin> set n" and "pre = [] \<or> last pre = SLASH"
  shows "basename (pre @ n) = n"
proof -
  from assms(1,2) have "last n \<noteq> SLASH"
    by (metis last_in_set)
  with assms(1) have "hd (rev n) \<noteq> SLASH" "rev n \<noteq> []"
    by (simp_all add: hd_rev)
  then have keep: "dropWhile (\<lambda>c. c = SLASH) (rev n @ rev pre) = rev n @ rev pre"
    by (cases "rev n") auto
  from assms(3) have "takeWhile (\<lambda>c. c \<noteq> SLASH) (rev pre) = []"
    by (cases pre rule: rev_cases) auto
  with assms(2) have "takeWhile (\<lambda>c. c \<noteq> SLASH) (rev n @ rev pre) = rev n"
    by (subst takeWhile_append2) auto
  with keep show ?thesis
    by (simp add: basename_def)
qed

lemma normalizeString_plain:
  assumes "dirent_name n" and "split_slash p = xs @ [n]"
  shows "\<exists>pre. normalizeString p a = pre @ n \<and> (pre = [] \<or> last pre = SLASH)"
proof -
  have "foldl (normalize_segment a) [] (xs @ [n]) = foldl (normalize_segment a) [] xs @ [n]"
    using assms(1) by (rule normalize_plain)
  then have "normalizeString p a =
      (if foldl (normalize_segment a) [] xs = [] then n
       else join_slash (foldl (normalize_segment a) [] xs) @ SLASH # n)"
    unfolding normalizeString_def assms(2) by (simp only: join_slash_snoc)
  then show ?thesis
    by (cases "foldl (normalize_segment a) [] xs = []")
       (auto intro: exI[of _ "join_slash (foldl (normalize_segment a) [] xs) @ [SLASH]"])
qed

lemma path_normalize_plain:
  assumes "dirent_name n" and "split_slash p = xs @ [n]" and "p \<noteq> []" and "last p \<noteq> SLASH"
  shows "\<exists>pre. path_normalize p = pre @ n \<and> (pre = [] \<or> last pre = SLASH)"
proof -
  obtain pre where pre: "normalizeString p (hd p \<noteq> SLASH) = pre @ n" "pre = [] \<or> last pre = SLASH"
    using normalizeString_plain[OF assms(1,2)] by blast
  from assms(1) have "n \<noteq> []" by (simp add: dirent_name_def)
  with pre assms(3,4) have "path_normalize p = (if hd p = SLASH then [SLASH] else []) @ pre @ n"
    by (simp add: path_normalize_def Let_def)
  with pre(2) show ?thesis
    by (cases "hd p = SLASH") (auto intro: exI[of _ "SLASH # pre"])
qed

text \<open>The basename of a directory entry's path is its name.\<close>

lemma basename_path_join:
  assumes "dirent_name n"
  shows "basename (path_join root n) = n"
proof -
  from assms have "n \<noteq> []" "SLASH \<notin> set n"
    by (auto simp: dirent_name_def)
  moreover from this have "last n \<noteq> SLASH"
    by (metis last_in_set)
  ultimately have n: "n \<noteq> []" "SLASH \<notin> set n" "last n \<noteq> SLASH"
    by blast+
  have "\<exists>pre. path_join root n = pre @ n \<and> (pre = [] \<or> last pre = SLASH)"
  proof (cases "root = []")
    case True
    with n have "path_join root n = path_normalize n"
      by (simp add: path_join_def)
    moreover have "split_slash n = [] @ [n]"
      using n by (simp add: split_slash_plain)
    ultimately show ?thesis
      using path_normalize_plain[OF assms _ n(1) n(3)] by simp
  next
    case False
    with n have "path_join root n = path_normalize (root @ SLASH # n)"
      by (simp add: path_join_def)
    moreover have "split_slash (root @ SLASH # n) = split_slash root @ [n]"
      using n by (simp add: split_slash_append split_slash_plain)
    moreover have "root @ SLASH # n \<noteq> []" "last (root @ SLASH # n) \<noteq> SLASH"
      using n by simp_all
    ultimately show ?thesis
      using path_normalize_plain[OF assms, of "root @ SLASH # n" "split_slash root"] by simp
  qed
  then obtain pre where "path_join root n = pre @ n" "pre = [] \<or> last pre = SLASH"
    by blast
  then show ?thesis
    using basename_suffix[OF n(1,2), of pre] by simp
qed

text \<open>The joins of the examples.\<close>

lemma path_join_examples:
  "path_join (js ''.'') (js ''a'') = js ''a''"
  "path_join (js ''r/'') (js ''a'') = js ''r/a''"
  "path_join (js ''./r'') (js ''.gitignore'') = js ''r/.gitignore''"
  "path_join (js ''../r'') (js ''a'') = js ''../r/a''"
  "path_join (js ''/abs//x/../y'') (js ''a'') = js ''/abs/y/a''"
  by code_simp+

section \<open>What one file does to the state\<close>

lemma fold_writer: "fold writer ls st = st\<lparr>sink := sink st @ ls\<rparr>"
  by (induction ls arbitrary: st) (auto simp: writer_def)

lemma printAsXml_eq:
  "printAsXml filePath content numbered st =
     st\<lparr>sink := sink st @ rendered (globalIndex st) (XmlDoc filePath content numbered),
        globalIndex := globalIndex st + 1\<rparr>"
  by (simp add: printAsXml_def Let_def writer_def writeMultiLine_def fold_writer)

lemma printAsJson_eq:
  "printAsJson filePath content numbered st =
     st\<lparr>sink := sink st @ rendered (globalIndex st) (JsonDoc filePath content numbered),
        globalIndex := globalIndex st + 1\<rparr>"
  by (simp add: printAsJson_def Let_def writer_def)

lemma printAsMarkdown_eq:
  "printAsMarkdown filePath content numbered st =
     st\<lparr>sink := sink st @ [filePath,
                grow_fence content (replicate 3 BACKTICK)
                  @ lang_tag (toLowerCase (drop 1 (extname filePath)))]
       @ split_nl (if numbered then addLineNumbers content else content)
       @ [grow_fence content (replicate 3 BACKTICK)]\<rparr>"
  by (simp add: printAsMarkdown_def Let_def writer_def writeMultiLine_def fold_writer)

lemma printDefault_eq:
  "printDefault filePath content numbered st =
     st\<lparr>sink := sink st @ [filePath, js ''---'']
       @ split_nl (if numbered then addLineNumbers content else content)
       @ [[], js ''---'']\<rparr>"
  by (simp add: printDefault_def Let_def writer_def writeMultiLine_def fold_writer)

lemmas print_eqs = printAsXml_eq printAsJson_eq printAsMarkdown_eq printDefault_eq

text \<open>A document is emitted: lines are written, the index may advance, the counter advances.\<close>

lemma emit_document_fields:
  "trace (emit_document cfg p content st) = trace st @ [Emit p]"
  "counter (emit_document cfg p content st) = map_option Suc (counter st)"
  "gitignoreRules (emit_document cfg p content st) = gitignoreRules st"
  "stderr (emit_document cfg p content st) = stderr st"
  "thrown (emit_document cfg p content st) = thrown st"
  "globalIndex (emit_document cfg p content st) =
     globalIndex st + (if json cfg \<or> cxml cfg then 1 else 0)"
  by (simp_all add: emit_document_def Let_def printPath_def log_events_def print_eqs)

lemma emit_document_sink: "\<exists>ls. sink (emit_document cfg p content st) = sink st @ ls"
  by (simp add: emit_document_def Let_def printPath_def log_events_def print_eqs)

lemma log_events_fields [simp]:
  "trace (log_events es st) = trace st @ es"
  "counter (log_events es st) = counter st"
  "gitignoreRules (log_events es st) = gitignoreRules st"
  "stderr (log_events es st) = stderr st"
  "thrown (log_events es st) = thrown st"
  "globalIndex (log_events es st) = globalIndex st"
  "sink (log_events es st) = sink st"
  by (simp_all add: log_events_def)

lemma console_error_fields [simp]:
  "trace (console_error cfg l st) = trace st"
  "counter (console_error cfg l st) = counter st"
  "gitignoreRules (console_error cfg l st) = gitignoreRules st"
  "stderr (console_error cfg l st) = (if quiet cfg then stderr st else stderr st @ [l])"
  "thrown (console_error cfg l st) = thrown st"
  "globalIndex (console_error cfg l st) = globalIndex st"
  "sink (console_error cfg l st) = sink st"
  by (simp_all add: console_error_def)

text \<open>The three outcomes of the read.\<close>

lemma read_and_emit_fields:
  "gitignoreRules (read_and_emit cfg p f st) = gitignoreRules st"
  "thrown (read_and_emit cfg p f st) = thrown st"
  "trace (read_and_emit cfg p f st) =
     trace st @ ReadFile p # (case f_read f of Content c \<Rightarrow> [Emit p] | _ \<Rightarrow> [])"
  "counter (read_and_emit cfg p f st) =
     (case f_read f of Content c \<Rightarrow> map_option Suc (counter st) | _ \<Rightarrow> counter st)"
  "stderr (read_and_emit cfg p f st) =
     (if f_read f = EOTHER \<and> \<not> quiet cfg then stderr st @ [read_warning p] else stderr st)"
  by (simp_all add: read_and_emit_def Let_def emit_document_fields split: read_result.splits)

lemma read_and_emit_sink:
  "\<exists>ls. sink (read_and_emit cfg p f st) = sink st @ ls"
  using emit_document_sink[of cfg p _ "log_events [ReadFile p] st"]
  by (auto simp add: read_and_emit_def Let_def split: read_result.splits)

lemma read_and_emit_failed_sink:
  "\<forall>c. f_read f \<noteq> Content c \<Longrightarrow> sink (read_and_emit cfg p f st) = sink st"
  "\<forall>c. f_read f \<noteq> Content c \<Longrightarrow> globalIndex (read_and_emit cfg p f st) = globalIndex st"
  by (auto simp add: read_and_emit_def Let_def split: read_result.splits)

text \<open>Every event of \<open>try_file\<close> is a document event on the file's own path.\<close>

lemma isBinaryFile_calls: "e \<in> set (snd (isBinaryFile p f)) \<Longrightarrow> e = Sniff p"
  by (auto simp: isBinaryFile_def Let_def split: option.splits if_splits)

lemma try_file_trace:
  "\<exists>es. trace (try_file cfg p f st) = trace st @ es \<and>
        (\<forall>e \<in> set es. document_event e \<and> event_path e = p)"
proof -
  obtain b calls where bc: "isBinaryFile p f = (b, calls)" by (cases "isBinaryFile p f")
  then have calls: "\<forall>e \<in> set calls. e = Sniff p"
    using isBinaryFile_calls[of _ p f] by auto
  show ?thesis
    unfolding try_file_def bc Let_def prod.case
    using calls
    by (auto simp: read_and_emit_fields split: option.splits read_result.splits)
qed

lemma try_file_fields:
  "gitignoreRules (try_file cfg p f st) = gitignoreRules st"
  "thrown (try_file cfg p f st) = thrown st"
  by (auto simp: try_file_def Let_def read_and_emit_fields split: prod.splits option.splits)

section \<open>Rules and allowed events\<close>

lemma shouldIgnore_Nil [simp]: "\<not> shouldIgnore p d []"
  by (simp add: shouldIgnore_def)

lemma shouldIgnore_mono:
  "set rules \<subseteq> set rules' \<Longrightarrow> shouldIgnore p d rules \<Longrightarrow> shouldIgnore p d rules'"
  by (auto simp: shouldIgnore_def Let_def list_ex_iff)

lemma excluded_mono:
  "set rules \<subseteq> set rules' \<Longrightarrow> excluded cfg rules d p \<Longrightarrow> excluded cfg rules' d p"
  by (auto simp: excluded_def split: option.splits dest: shouldIgnore_mono)

lemma allowed_root: "allowed cfg rules root entries (ReadDir root)"
  by (subst allowed.simps) simp

lemma allowed_rules_file:
  "ig cfg = None \<Longrightarrow> \<not> ignoreGitignore cfg \<Longrightarrow>
   allowed cfg rules root entries (ReadRules (path_join root (js ''.gitignore'')))"
  by (subst allowed.simps) simp

lemma allowed_file:
  assumes "File name f \<in> set entries"
    and "\<not> excluded cfg (rules @ own_rules cfg root entries) False (path_join root name)"
    and "document_event e" and "event_path e = path_join root name"
  shows "allowed cfg rules root entries e"
  using assms by (subst allowed.simps) (force simp: list_ex_iff)

lemma allowed_subdir:
  assumes "Dir name l es \<in> set entries"
    and "\<not> excluded cfg (rules @ own_rules cfg root entries) True (path_join root name)"
    and "allowed cfg (rules @ own_rules cfg root entries) (path_join root name) es e"
  shows "allowed cfg rules root entries e"
  using assms by (subst allowed.simps) (force simp: list_ex_iff)

lemma allowed_cases:
  assumes "allowed cfg rules root entries e"
  obtains "e = ReadDir root"
  | "e = ReadRules (path_join root (js ''.gitignore''))" "ig cfg = None" "\<not> ignoreGitignore cfg"
  | name f where "File name f \<in> set entries"
      "\<not> excluded cfg (rules @ own_rules cfg root entries) False (path_join root name)"
      "document_event e" "event_path e = path_join root name"
  | name l es where "Dir name l es \<in> set entries"
      "\<not> excluded cfg (rules @ own_rules cfg root entries) True (path_join root name)"
      "allowed cfg (rules @ own_rules cfg root entries) (path_join root name) es e"
proof -
  from assms consider "e = ReadDir root"
    | "e = ReadRules (path_join root (js ''.gitignore'')) \<and> ig cfg = None \<and> \<not> ignoreGitignore cfg"
    | d where "d \<in> set entries"
        "\<not> excluded cfg (rules @ own_rules cfg root entries) (isDirectory d)
             (path_join root (node_name d))"
        "case d of
           File name f \<Rightarrow> document_event e \<and> event_path e = path_join root name
         | Dir name l es \<Rightarrow>
             allowed cfg (rules @ own_rules cfg root entries) (path_join root name) es e"
    by (subst (asm) allowed.simps) (auto simp: list_ex_iff)
  then show ?thesis
  proof cases
    case 1
    then show ?thesis by (rule that(1))
  next
    case 2
    then show ?thesis by (intro that(2)) simp_all
  next
    case 3
    show ?thesis
    proof (cases d)
      case (File name f)
      with 3 show ?thesis by (intro that(3)[of name f]) simp_all
    next
      case (Dir name l es)
      with 3 show ?thesis by (intro that(4)[of name l es]) simp_all
    qed
  qed
qed

text \<open>More rules allow fewer events.\<close>

lemma allowed_mono:
  "allowed cfg rules' root entries e \<Longrightarrow> set rules \<subseteq> set rules' \<Longrightarrow>
   allowed cfg rules root entries e"
proof (induction cfg rules' root entries e arbitrary: rules rule: allowed.induct)
  case (1 cfg rules' root entries e)
  let ?own = "own_rules cfg root entries"
  from "1.prems"(2) have sub: "set (rules @ ?own) \<subseteq> set (rules' @ ?own)"
    by auto
  from "1.prems"(1) show ?case
  proof (cases rule: allowed_cases)
    case 1
    then show ?thesis by (simp add: allowed_root)
  next
    case 2
    then show ?thesis by (simp add: allowed_rules_file)
  next
    case (3 name f)
    from 3(2) sub have "\<not> excluded cfg (rules @ ?own) False (path_join root name)"
      using excluded_mono by blast
    with 3(1) show ?thesis using 3(3,4) by (rule allowed_file)
  next
    case (4 name l es)
    from 4(2) sub have "\<not> excluded cfg (rules @ ?own) True (path_join root name)"
      using excluded_mono by blast
    moreover have "allowed cfg (rules @ ?own) (path_join root name) es e"
      using "1.IH"[OF 4(1) refl 4(3) sub] .
    ultimately show ?thesis by (rule allowed_subdir[OF 4(1)])
  qed
qed

text \<open>
  An allowed event touches no path that the rules of the start exclude: not as a
  document, and not as a directory below the root.
\<close>

lemma allowed_not_excluded:
  "allowed cfg rules root entries e \<Longrightarrow>
   (document_event e \<longrightarrow> \<not> excluded cfg rules False (event_path e)) \<and>
   (\<forall>q. e = ReadDir q \<and> q \<noteq> root \<longrightarrow> \<not> excluded cfg rules True q)"
proof (induction cfg rules root entries e rule: allowed.induct)
  case (1 cfg rules root entries e)
  let ?own = "own_rules cfg root entries"
  have weaker: "\<not> excluded cfg rules d p" if "\<not> excluded cfg (rules @ ?own) d p" for d p
    using that excluded_mono[of rules "rules @ ?own" cfg d p] by auto
  from "1.prems" show ?case
  proof (cases rule: allowed_cases)
    case 1
    then show ?thesis by simp
  next
    case 2
    then show ?thesis by simp
  next
    case (3 name f)
    then show ?thesis by (auto dest: weaker)
  next
    case (4 name l es)
    from "1.IH"[OF 4(1) refl 4(3)]
    have ih: "document_event e \<longrightarrow> \<not> excluded cfg (rules @ ?own) False (event_path e)"
      "\<forall>q. e = ReadDir q \<and> q \<noteq> path_join root name \<longrightarrow> \<not> excluded cfg (rules @ ?own) True q"
      by blast+
    show ?thesis
    proof (intro conjI impI allI)
      assume "document_event e"
      with ih show "\<not> excluded cfg rules False (event_path e)" by (blast dest: weaker)
    next
      fix q assume q: "e = ReadDir q \<and> q \<noteq> root"
      show "\<not> excluded cfg rules True q"
      proof (cases "q = path_join root name")
        case True
        with 4(2) show ?thesis by (blast dest: weaker)
      next
        case False
        with q ih show ?thesis by (blast dest: weaker)
      qed
    qed
  qed
qed

section \<open>What a walk touches\<close>

lemma step_refl: "allowed_step cfg rules root entries st st"
  by (simp add: allowed_step_def)

lemma step_trans:
  "allowed_step cfg rules root entries st st1 \<Longrightarrow> allowed_step cfg rules root entries st1 st2 \<Longrightarrow>
   allowed_step cfg rules root entries st st2"
  by (auto simp: allowed_step_def)

lemma step_rules: "allowed_step cfg rules root entries st st' \<Longrightarrow>
   set (gitignoreRules st) \<subseteq> set (gitignoreRules st')"
  by (auto simp: allowed_step_def)

text \<open>The files and directories that survive the filters are not excluded.\<close>

lemma surviving_files_kept:
  assumes "d \<in> set (surviving_files cfg rules root entries)"
  shows "d \<in> set entries \<and> \<not> isDirectory d \<and>
         (dirent_name (node_name d) \<longrightarrow> \<not> excluded cfg rules False (path_join root (node_name d)))"
proof -
  have "DEFAULT_IGNORES @ ignorePatterns cfg \<noteq> []"
    by (simp add: DEFAULT_IGNORES_def)
  with assms show ?thesis
    unfolding surviving_files_def visible_entries_def Let_def excluded_def
    by (auto simp: basename_path_join split: option.splits if_splits)
qed

lemma surviving_subdirs_kept:
  assumes "d \<in> set (surviving_subdirs cfg rules root entries)"
  shows "d \<in> set entries \<and> isDirectory d \<and> \<not> excluded cfg rules True (path_join root (node_name d))"
proof -
  have "DEFAULT_IGNORES @ ignorePatterns cfg \<noteq> []"
    by (simp add: DEFAULT_IGNORES_def)
  with assms show ?thesis
    unfolding surviving_subdirs_def visible_entries_def Let_def excluded_def
    by (auto split: option.splits if_splits)
qed

lemma try_file_step:
  assumes "File name f \<in> set entries"
    and "\<not> excluded cfg (rules @ own_rules cfg root entries) False (path_join root name)"
  shows "allowed_step cfg rules root entries st (try_file cfg (path_join root name) f st)"
proof -
  obtain es where es: "trace (try_file cfg (path_join root name) f st) = trace st @ es"
      "\<forall>e \<in> set es. document_event e \<and> event_path e = path_join root name"
    using try_file_trace by blast
  have "allowed cfg rules root entries e" if "e \<in> set es" for e
    using assms es that by (auto intro: allowed_file)
  with es show ?thesis
    by (auto simp: allowed_step_def try_file_fields)
qed

lemma walk_files_step:
  assumes "\<forall>d \<in> set ds. d \<in> set entries \<and> (\<not> isDirectory d \<longrightarrow>
             \<not> excluded cfg (rules @ own_rules cfg root entries) False (path_join root (node_name d)))"
  shows "allowed_step cfg rules root entries st (fst (walk_files cfg root ds st))"
  using assms
proof (induction ds arbitrary: st)
  case Nil
  show ?case by (simp add: step_refl)
next
  case (Cons d ds)
  show ?case
  proof (cases "reached_maxFiles cfg st")
    case True
    then show ?thesis by (simp add: step_refl)
  next
    case False
    show ?thesis
    proof (cases d)
      case (File name f)
      with Cons.prems have "File name f \<in> set entries"
          "\<not> excluded cfg (rules @ own_rules cfg root entries) False (path_join root name)"
        by auto
      then have "allowed_step cfg rules root entries st (try_file cfg (path_join root name) f st)"
        by (rule try_file_step)
      moreover from Cons have "allowed_step cfg rules root entries
          (try_file cfg (path_join root name) f st)
          (fst (walk_files cfg root ds (try_file cfg (path_join root name) f st)))"
        by simp
      ultimately show ?thesis using False File
        by (auto intro: step_trans)
    next
      case (Dir name l es)
      with Cons False show ?thesis by simp
    qed
  qed
qed


lemma readGitignore_calls:
  "e \<in> set (snd (readGitignore root entries)) \<Longrightarrow>
   e = ReadRules (path_join root (js ''.gitignore''))"
  by (auto simp: readGitignore_def Let_def
      split: option.splits node.splits read_result.splits)

lemma load_gitignore_rules:
  "gitignoreRules (load_gitignore cfg root entries st) = gitignoreRules st @ own_rules cfg root entries"
  by (auto simp: load_gitignore_def own_rules_def split: prod.splits)


lemma load_gitignore_step:
  "allowed_step cfg rules root entries st (load_gitignore cfg root entries st)"
proof (cases "ig cfg = None \<and> \<not> ignoreGitignore cfg")
  case False
  then show ?thesis by (auto simp: load_gitignore_def step_refl)
next
  case True
  obtain rs calls where rc: "readGitignore root entries = (rs, calls)"
    by (cases "readGitignore root entries")
  have "allowed cfg rules root entries e" if "e \<in> set calls" for e
  proof -
    from that rc have "e = ReadRules (path_join root (js ''.gitignore''))"
      using readGitignore_calls[of e root entries] by simp
    with True show ?thesis by (simp add: allowed_rules_file)
  qed
  with True rc show ?thesis
    by (auto simp: load_gitignore_def allowed_step_def)
qed

lemma readdir_step: "allowed_step cfg rules root entries st (log_events [ReadDir root] st)"
  by (simp add: allowed_step_def allowed_root)

lemma walk_files_rules: "gitignoreRules (fst (walk_files cfg root ds st)) = gitignoreRules st"
  by (induction ds arbitrary: st) (auto simp: try_file_fields split: node.splits)

text \<open>The loop over the subdirectories keeps what every call keeps.\<close>

lemma subdirs_fold_invariant:
  assumes "I s0"
    and "\<And>name l es s. Dir name l es \<in> set ds \<Longrightarrow> I s \<Longrightarrow> \<not> thrown s \<Longrightarrow> I (W name l es s)"
  shows "I (fold (\<lambda>subdir st'. if thrown st' then st'
                    else (case subdir of Dir name l es \<Rightarrow> W name l es st' | File name f \<Rightarrow> st'))
              ds s0)"
  using assms
proof (induction ds arbitrary: s0)
  case Nil
  then show ?case by simp
next
  case (Cons d ds)
  have "I (if thrown s0 then s0
           else (case d of Dir name l es \<Rightarrow> W name l es s0 | File name f \<Rightarrow> s0))"
    using Cons.prems by (cases d) auto
  then show ?case
    using Cons.IH Cons.prems(2) by simp
qed

lemma walkDir_aborts:
  "\<not> listable \<or> matcher_throws cfg root entries \<Longrightarrow>
   walkDir cfg root listable entries st = (log_events [ReadDir root] st)\<lparr>thrown := True\<rparr>"
  by (subst walkDir.simps) auto

lemma walkDir_listable:
  assumes "\<not> matcher_throws cfg root entries"
    and "walk_files cfg root
             (surviving_files cfg (gitignoreRules st @ own_rules cfg root entries) root entries)
             (load_gitignore cfg root entries (log_events [ReadDir root] st)) = (st2, returned)"
  shows "walkDir cfg root True entries st =
     (if returned then st2
      else fold (\<lambda>subdir st'. if thrown st' then st'
                   else (case subdir of
                           Dir name l es \<Rightarrow> walkDir cfg (path_join root name) l es st'
                         | File name f \<Rightarrow> st'))
             (surviving_subdirs cfg (gitignoreRules st @ own_rules cfg root entries) root entries)
             st2)"
  using assms by (subst walkDir.simps) (simp add: Let_def load_gitignore_rules)

text \<open>
  Every event of a walk is an allowed one, under the rules that the walk starts with.
\<close>

lemma walkDir_allowed:
  "list_all dirent_names entries \<Longrightarrow>
   allowed_step cfg (gitignoreRules st) root entries st (walkDir cfg root listable entries st)"
proof (induction cfg root listable entries st rule: walkDir.induct)
  case (1 cfg root listable entries st)
  let ?R = "gitignoreRules st @ own_rules cfg root entries"
  let ?st1 = "load_gitignore cfg root entries (log_events [ReadDir root] st)"
  let ?A = "allowed_step cfg (gitignoreRules st) root entries"
  show ?case
  proof (cases "\<not> listable \<or> matcher_throws cfg root entries")
    case True
    then show ?thesis
      by (simp add: walkDir_aborts allowed_step_def allowed_root)
  next
    case False
    then have listable: "listable = True" and quiet_matcher: "\<not> matcher_throws cfg root entries"
      by simp_all
    obtain st2 returned where wf:
      "walk_files cfg root (surviving_files cfg ?R root entries) ?st1 = (st2, returned)"
      by (cases "walk_files cfg root (surviving_files cfg ?R root entries) ?st1")
    have R: "gitignoreRules ?st1 = ?R"
      by (simp add: load_gitignore_rules)
    have e01: "?A st ?st1"
      using readdir_step load_gitignore_step by (rule step_trans)
    have names: "dirent_name (node_name d)" if "d \<in> set entries" for d
      using "1.prems" that by (cases d) (auto simp: list_all_iff)
    have "?A ?st1 (fst (walk_files cfg root (surviving_files cfg ?R root entries) ?st1))"
      by (rule walk_files_step) (use surviving_files_kept names in blast)
    with wf have e12: "?A ?st1 st2" by simp
    from e01 e12 have e02: "?A st st2" by (rule step_trans)
    have R2: "gitignoreRules st2 = ?R"
      using walk_files_rules[of cfg root "surviving_files cfg ?R root entries" ?st1] wf R
      by simp
    show ?thesis
    proof (cases returned)
      case True
      with e02 show ?thesis
        unfolding listable by (simp add: walkDir_listable[OF quiet_matcher wf])
    next
      case not_returned: False
      have "?A st2
              (fold (\<lambda>subdir st'. if thrown st' then st'
                   else (case subdir of
                           Dir name l es \<Rightarrow> walkDir cfg (path_join root name) l es st'
                         | File name f \<Rightarrow> st'))
                 (surviving_subdirs cfg ?R root entries) st2)"
      proof (rule subdirs_fold_invariant[where I = "?A st2"])
        show "?A st2 st2" by (rule step_refl)
      next
        fix name l es s
        assume d: "Dir name l es \<in> set (surviving_subdirs cfg ?R root entries)"
          and I: "?A st2 s" and nt: "\<not> thrown s"
        from surviving_subdirs_kept[OF d]
        have member: "Dir name l es \<in> set entries"
          and kept: "\<not> excluded cfg ?R True (path_join root name)"
          by simp_all
        from member "1.prems" have sub_names: "list_all dirent_names es"
          by (auto simp: list_all_iff)
        have sub: "set ?R \<subseteq> set (gitignoreRules s)"
          using step_rules[OF I] R2 by simp
        have ih: "allowed_step cfg (gitignoreRules s) (path_join root name) es s
                (walkDir cfg (path_join root name) l es s)"
          using "1.IH"[of ?st1 "gitignoreRules ?st1" "(st2, returned)" st2 returned
                     "Dir name l es" s name l es]
            listable quiet_matcher wf not_returned d R nt sub_names
          by simp
        have "allowed cfg (gitignoreRules st) root entries e"
          if "allowed cfg (gitignoreRules s) (path_join root name) es e" for e
        proof -
          from that sub have "allowed cfg ?R (path_join root name) es e"
            by (rule allowed_mono)
          with member kept show ?thesis by (rule allowed_subdir)
        qed
        with ih have "?A s (walkDir cfg (path_join root name) l es s)"
          unfolding allowed_step_def by blast
        with I show "?A st2 (walkDir cfg (path_join root name) l es s)"
          by (rule step_trans)
      qed
      with e02 have "?A st
              (fold (\<lambda>subdir st'. if thrown st' then st'
                   else (case subdir of
                           Dir name l es \<Rightarrow> walkDir cfg (path_join root name) l es st'
                         | File name f \<Rightarrow> st'))
                 (surviving_subdirs cfg ?R root entries) st2)"
        by (rule step_trans)
      with not_returned show ?thesis
        unfolding listable by (simp add: walkDir_listable[OF quiet_matcher wf])
    qed
  qed
qed

section \<open>The scenarios of the test suite\<close>

text \<open>
  The walker tests: the extension filter keeps \<open>a.ts\<close> and drops \<open>b.md\<close>; without
  \<open>includeHidden\<close> the file \<open>.hidden.txt\<close> is dropped; the pattern \<open>*.log\<close> drops
  \<open>skip.log\<close> with gitignore processing off; \<open>image.png\<close> is skipped as binary without
  being opened.
\<close>

lemma walker_test_scenarios:
  "filter emits (new_events fresh_state
     (processPath (plain_config\<lparr>extensions := [js ''.ts'']\<rparr>) (js ''/tmp/w'')
        (Some (Dir (js ''w'') True
           [File (js ''a.ts'') (text_file (js ''export {}'' @ [LF])),
            File (js ''b.md'') (text_file (js ''# md'' @ [LF]))])) fresh_state))
     = [Emit (js ''/tmp/w/a.ts'')]"
  "filter emits (new_events fresh_state
     (processPath (plain_config\<lparr>includeHidden := False\<rparr>) (js ''/tmp/w'')
        (Some (Dir (js ''w'') True
           [File (js ''.hidden.txt'') (text_file (js ''h'')),
            File (js ''visible.txt'') (text_file (js ''v''))])) fresh_state))
     = [Emit (js ''/tmp/w/visible.txt'')]"
  "filter emits (new_events fresh_state
     (processPath (plain_config\<lparr>ignoreGitignore := True, ignorePatterns := [js ''*.log'']\<rparr>)
        (js ''/tmp/w'')
        (Some (Dir (js ''w'') True
           [File (js ''keep.txt'') (text_file (js ''k'')),
            File (js ''skip.log'') (text_file (js ''s''))])) fresh_state))
     = [Emit (js ''/tmp/w/keep.txt'')]"
  "new_events fresh_state
     (processPath (plain_config\<lparr>ignoreGitignore := True\<rparr>) (js ''/tmp/w'')
        (Some (Dir (js ''w'') True
           [File (js ''image.png'')
              \<lparr>f_bytes = Some [0x89, 0x50, 0x4E, 0x47, 0x0D, 0x0A, 0x1A, 0x0A], f_size = Some 8,
               f_read = Content (js ''?PNG'')\<rparr>,
            File (js ''note.txt'') (text_file (js ''hello world''))])) fresh_state)
     = [ReadDir (js ''/tmp/w''), Sniff (js ''/tmp/w/note.txt''),
        ReadFile (js ''/tmp/w/note.txt''), Emit (js ''/tmp/w/note.txt'')]"
  by code_simp+

text \<open>
  A walk of \<open>.\<close> names its files without the leading \<open>./\<close>, and the matcher of a
  project-root \<open>.gitignore\<close> that throws on a path outside the working directory ends the
  walk before any file is opened.
\<close>

lemma walk_of_dot:
  "sink (processPath plain_config (js ''.'')
           (Some (Dir (js ''.'') True [File (js ''a'') (text_file (js ''x''))])) fresh_state)
     = [js ''a'', js ''---'', js ''x'', [], js ''---'']"
  "new_events fresh_state
     (walkDir (plain_config\<lparr>ig := Some (\<lambda>p. if startsWith p (js ''../'') then None else Some False)\<rparr>)
        (js ''../r'') True [File (js ''a'') (text_file (js ''x''))] fresh_state)
     = [ReadDir (js ''../r'')]"
  "thrown
     (walkDir (plain_config\<lparr>ig := Some (\<lambda>p. if startsWith p (js ''../'') then None else Some False)\<rparr>)
        (js ''../r'') True [File (js ''a'') (text_file (js ''x''))] fresh_state)"
  by code_simp+

section \<open>Excluded paths\<close>

lemma new_events_append: "trace st' = trace st @ es \<Longrightarrow> new_events st st' = es"
  by (simp add: new_events_def)

lemma step_new_events:
  "allowed_step cfg rules root entries st st' \<Longrightarrow> e \<in> set (new_events st st') \<Longrightarrow>
   allowed cfg rules root entries e"
  by (auto simp: allowed_step_def new_events_def)

lemma processPath_file_events:
  assumes "e \<in> set (new_events st (processPath cfg p (Some (File n f)) st))"
  shows "document_event e \<and> event_path e = p \<and>
         (\<forall>ignores. ig cfg = Some ignores \<longrightarrow> ignores p = Some False) \<and>
         \<not> shouldIgnore p False (gitignoreRules st) \<and>
         \<not> shouldIgnore p False (DEFAULT_IGNORES @ ignorePatterns cfg)"
proof -
  obtain es where es: "trace (try_file cfg p f st) = trace st @ es"
      "\<forall>e \<in> set es. document_event e \<and> event_path e = p"
    using try_file_trace by blast
  let ?answer = "case ig cfg of Some ignores \<Rightarrow> ignores p | None \<Rightarrow> Some False"
  show ?thesis
  proof (cases "?answer = Some False \<and> \<not> shouldIgnore p False (gitignoreRules st)
                \<and> \<not> shouldIgnore p False (DEFAULT_IGNORES @ ignorePatterns cfg)")
    case False
    then have "trace (processPath cfg p (Some (File n f)) st) = trace st"
      by (cases ?answer) (auto simp: processPath_def Let_def)
    with assms show ?thesis by (simp add: new_events_def)
  next
    case True
    then have "processPath cfg p (Some (File n f)) st = try_file cfg p f st"
      by (simp add: processPath_def Let_def)
    with assms es have "e \<in> set es"
      by (simp add: new_events_append)
    with es True show ?thesis by (auto split: option.splits)
  qed
qed




section \<open>The default denylist\<close>

lemma glob_literal:
  "\<forall>c \<in> set p. c \<noteq> STAR \<and> c \<noteq> QMARK \<Longrightarrow> glob_matches ok p n \<longleftrightarrow> n = p"
  by (induction ok p n rule: glob_matches.induct) auto

lemma glob_star_only: "glob_matches ok [STAR] n \<longleftrightarrow> (\<forall>c \<in> set n. ok c)"
  by (induction n) auto

lemma glob_literal_head:
  "c \<noteq> STAR \<Longrightarrow> c \<noteq> QMARK \<Longrightarrow>
   glob_matches ok (c # p) n \<longleftrightarrow> (\<exists>n'. n = c # n' \<and> glob_matches ok p n')"
  by (cases n) auto

text \<open>
  The names that \<open>fnmatch\<close> matches against the default denylist: \<open>.gitignore\<close>, and
  \<open>.env\<close> followed by any characters other than line terminators.
\<close>

lemma default_denylist_names:
  "list_ex (\<lambda>pattern. fnmatch name pattern) DEFAULT_IGNORES \<longleftrightarrow>
     name = js ''.gitignore'' \<or>
     (\<exists>rest. name = js ''.env'' @ rest \<and> (\<forall>c \<in> set rest. \<not> line_terminator c))"
proof -
  have env: "fnmatch name (js ''.env'') \<longleftrightarrow> name = js ''.env''"
    unfolding fnmatch_glob by (rule glob_literal) (simp add: js_def)
  have git: "fnmatch name (js ''.gitignore'') \<longleftrightarrow> name = js ''.gitignore''"
    unfolding fnmatch_glob by (rule glob_literal) (simp add: js_def)
  have star: "fnmatch name (js ''.env*'') \<longleftrightarrow>
      (\<exists>rest. name = js ''.env'' @ rest \<and> (\<forall>c \<in> set rest. \<not> line_terminator c))"
    unfolding fnmatch_glob by (auto simp: js_def glob_literal_head glob_star_only)
  have dot: "fnmatch name (js ''.env.*'') \<longleftrightarrow>
      (\<exists>rest. name = js ''.env.'' @ rest \<and> (\<forall>c \<in> set rest. \<not> line_terminator c))"
    unfolding fnmatch_glob by (auto simp: js_def glob_literal_head glob_star_only)
  have "fnmatch name (js ''.env'') \<Longrightarrow> fnmatch name (js ''.env*'')"
    unfolding env star by simp
  moreover have "fnmatch name (js ''.env.*'') \<Longrightarrow> fnmatch name (js ''.env*'')"
    unfolding dot star by (auto simp: js_def line_terminator_def)
  ultimately have "list_ex (\<lambda>pattern. fnmatch name pattern) DEFAULT_IGNORES \<longleftrightarrow>
      fnmatch name (js ''.env*'') \<or> fnmatch name (js ''.gitignore'')"
    by (auto simp: DEFAULT_IGNORES_def)
  then show ?thesis
    unfolding star git by blast
qed

text \<open>
  What holds in every configuration: no emitted file has a basename that \<open>fnmatch\<close>
  matches against a pattern of the default denylist, so none is called \<open>.gitignore\<close> or
  \<open>.env\<close> followed by characters other than line terminators.
\<close>

lemma denylist_of_fnmatch_never_emitted:
  assumes "case target of Some (Dir n listable entries) \<Rightarrow> list_all dirent_names entries | _ \<Rightarrow> True"
    and "Emit q \<in> set (new_events st (processPath cfg p target st))"
  shows "\<not> list_ex (\<lambda>pattern. fnmatch (basename q) pattern) DEFAULT_IGNORES"
proof (cases target)
  case None
  with assms(2) show ?thesis by (simp add: processPath_def new_events_def)
next
  case (Some node)
  show ?thesis
  proof (cases node)
    case (File n f)
    with assms(2) Some have "event_path (Emit q) = p"
        "\<not> shouldIgnore p False (DEFAULT_IGNORES @ ignorePatterns cfg)"
      using processPath_file_events[of "Emit q" st cfg p n f] by auto
    then show ?thesis
      by (simp add: shouldIgnore_def Let_def)
  next
    case (Dir n listable entries)
    with assms Some
    have names: "list_all dirent_names entries"
      and walked: "Emit q \<in> set (new_events st (walkDir cfg p listable entries st))"
      by (simp_all add: processPath_def)
    from walkDir_allowed[OF names] walked
    have "allowed cfg (gitignoreRules st) p entries (Emit q)"
      by (rule step_new_events)
    from allowed_not_excluded[OF this]
    have "\<not> excluded cfg (gitignoreRules st) False q"
      by simp
    then show ?thesis
      by (simp add: excluded_def)
  qed
qed

text \<open>
  C10. The claim: a file whose basename matches \<open>.env\<close>, \<open>.env.*\<close>, \<open>.env*\<close> or
  \<open>.gitignore\<close> is never emitted. The name \<open>.env\<close> followed by a carriage return matches
  \<open>.env*\<close> as the specification words the matcher, but not for \<open>fnmatch\<close>, whose \<open>*\<close> does
  not match a line terminator; \<open>processPath\<close> on that file opens, reads and emits it,
  and a walk emits the file \<open>.env\<close>, newline, \<open>prod\<close> of a directory.
\<close>

theorem denylisted_env_file_is_emitted:
  "spec_matches (js ''.env'' @ [0x0D]) (js ''.env*'') \<and>
   \<not> fnmatch (js ''.env'' @ [0x0D]) (js ''.env*'') \<and>
   basename (js ''.env'' @ [0x0D]) = js ''.env'' @ [0x0D] \<and>
   new_events fresh_state
     (processPath plain_config (js ''.env'' @ [0x0D])
        (Some (File (js ''.env'' @ [0x0D]) (text_file (js ''KEY=1'')))) fresh_state)
     = [Sniff (js ''.env'' @ [0x0D]), ReadFile (js ''.env'' @ [0x0D]), Emit (js ''.env'' @ [0x0D])] \<and>
   sink
     (processPath plain_config (js ''.env'' @ [0x0D])
        (Some (File (js ''.env'' @ [0x0D]) (text_file (js ''KEY=1'')))) fresh_state)
     = [js ''.env'' @ [0x0D], js ''---'', js ''KEY=1'', [], js ''---''] \<and>
   spec_matches (js ''.env'' @ [LF] @ js ''prod'') (js ''.env*'') \<and>
   new_events fresh_state
     (walkDir (plain_config\<lparr>ignoreGitignore := True\<rparr>) (js ''r'') True
        [File (js ''.env'' @ [LF] @ js ''prod'') (text_file (js ''KEY=1''))] fresh_state)
     = [ReadDir (js ''r''), Sniff (js ''r/.env'' @ [LF] @ js ''prod''),
        ReadFile (js ''r/.env'' @ [LF] @ js ''prod''), Emit (js ''r/.env'' @ [LF] @ js ''prod'')]"
  by code_simp

section \<open>The file limit\<close>

lemma idle_refl: "idle_step st st"
  by (simp add: idle_step_def)






lemma counted_refl: "counter st = Some c \<Longrightarrow> counted_within m st st"
  by (simp add: counted_within_def)

lemma counted_trans:
  "counted_within m st s \<Longrightarrow> counted_within m s s' \<Longrightarrow> counted_within m st s'"
  by (auto simp: counted_within_def)

lemma counted_same:
  "counted_within m st s \<Longrightarrow> counter s' = counter s \<Longrightarrow> counted_within m st s'"
  by (auto simp: counted_within_def)

lemma try_file_counter:
  "counter (try_file cfg p f st) = counter st \<or>
   counter (try_file cfg p f st) = map_option Suc (counter st)"
  by (auto simp: try_file_def Let_def read_and_emit_fields
      split: prod.splits option.splits read_result.splits)

lemma try_file_counted:
  assumes "maxFiles cfg = Some m" and "counter st = Some c" and "\<not> reached_maxFiles cfg st"
  shows "counted_within m st (try_file cfg p f st)"
proof -
  from assms have "int c < m" by (simp add: reached_maxFiles_def)
  with assms(2) try_file_counter[of cfg p f st] show ?thesis
    by (auto simp: counted_within_def)
qed

lemma walk_files_counted:
  "maxFiles cfg = Some m \<Longrightarrow> counter st = Some c \<Longrightarrow>
   counted_within m st (fst (walk_files cfg root ds st))"
proof (induction ds arbitrary: st c)
  case Nil
  then show ?case by (simp add: counted_refl)
next
  case (Cons d ds)
  show ?case
  proof (cases "reached_maxFiles cfg st")
    case True
    with Cons.prems show ?thesis by (simp add: counted_refl)
  next
    case False
    show ?thesis
    proof (cases d)
      case (File name f)
      let ?s = "try_file cfg (path_join root name) f st"
      have step: "counted_within m st ?s"
        using Cons.prems False by (rule try_file_counted)
      then obtain c' where "counter ?s = Some c'" by (auto simp: counted_within_def)
      with Cons.IH[OF Cons.prems(1)]
      have "counted_within m ?s (fst (walk_files cfg root ds ?s))" by blast
      with step show ?thesis using False File by (auto intro: counted_trans)
    next
      case (Dir name l es)
      with Cons False show ?thesis by simp
    qed
  qed
qed

lemma load_gitignore_counter:
  "counter (load_gitignore cfg root entries st) = counter st"
  by (auto simp: load_gitignore_def split: prod.splits)

text \<open>
  A walk that starts below the limit emits at most as many files as the limit leaves.
\<close>

lemma walkDir_counted:
  "maxFiles cfg = Some m \<Longrightarrow> counter st = Some c \<Longrightarrow>
   counted_within m st (walkDir cfg root listable entries st)"
proof (induction cfg root listable entries st arbitrary: c rule: walkDir.induct)
  case (1 cfg root listable entries st)
  let ?R = "gitignoreRules st @ own_rules cfg root entries"
  let ?st1 = "load_gitignore cfg root entries (log_events [ReadDir root] st)"
  show ?case
  proof (cases "\<not> listable \<or> matcher_throws cfg root entries")
    case True
    with "1.prems" show ?thesis by (simp add: walkDir_aborts counted_within_def)
  next
    case False
    then have listable: "listable = True" and quiet_matcher: "\<not> matcher_throws cfg root entries"
      by simp_all
    obtain st2 returned where wf:
      "walk_files cfg root (surviving_files cfg ?R root entries) ?st1 = (st2, returned)"
      by (cases "walk_files cfg root (surviving_files cfg ?R root entries) ?st1")
    have c1: "counter ?st1 = Some c"
      using "1.prems" by (simp add: load_gitignore_counter)
    then have "counted_within m ?st1
        (fst (walk_files cfg root (surviving_files cfg ?R root entries) ?st1))"
      using "1.prems"(1) by (intro walk_files_counted)
    with wf c1 "1.prems" have i2: "counted_within m st st2"
      by (auto simp: counted_within_def)
    have R: "gitignoreRules ?st1 = ?R"
      by (simp add: load_gitignore_rules)
    show ?thesis
    proof (cases returned)
      case True
      with i2 show ?thesis unfolding listable by (simp add: walkDir_listable[OF quiet_matcher wf])
    next
      case not_returned: False
      have "counted_within m st (fold (\<lambda>subdir st'. if thrown st' then st'
                   else (case subdir of
                           Dir name l es \<Rightarrow> walkDir cfg (path_join root name) l es st'
                         | File name f \<Rightarrow> st'))
                 (surviving_subdirs cfg ?R root entries) st2)"
      proof (rule subdirs_fold_invariant[where I = "counted_within m st"])
        show "counted_within m st st2" by (rule i2)
      next
        fix name l es and s :: wstate
        assume d: "Dir name l es \<in> set (surviving_subdirs cfg ?R root entries)"
          and I: "counted_within m st s" and nt: "\<not> thrown s"
        from I obtain c' where c': "counter s = Some c'" by (auto simp: counted_within_def)
        have "counted_within m s (walkDir cfg (path_join root name) l es s)"
          using "1.IH"[of ?st1 "gitignoreRules ?st1" "(st2, returned)" st2 returned
                     "Dir name l es" s name l es c']
            wf not_returned d R nt listable quiet_matcher "1.prems"(1) c'
          by simp
        with I show "counted_within m st (walkDir cfg (path_join root name) l es s)"
          by (rule counted_trans)
      qed
      with not_returned show ?thesis
        unfolding listable by (simp add: walkDir_listable[OF quiet_matcher wf])
    qed
  qed
qed

text \<open>
  C3. The claim: once the counter has reached \<open>maxFiles\<close> the entire walk stops, no
  further file is read or emitted, and the recursion checks the limit before it descends.
  With the limit 1 reached, \<open>walkDir\<close> still descends into the subdirectory \<open>d\<close> and
  into \<open>e\<close> below it and lists them, and \<open>processPath\<close> on the file \<open>b\<close> still reads and
  emits it and counts a second file.
\<close>

theorem walk_continues_after_maxFiles:
  "reached_maxFiles (plain_config\<lparr>maxFiles := Some 1\<rparr>) (fresh_state\<lparr>counter := Some 1\<rparr>) \<and>
   new_events (fresh_state\<lparr>counter := Some 1\<rparr>)
     (walkDir (plain_config\<lparr>maxFiles := Some 1\<rparr>) (js ''r'') True
        [Dir (js ''d'') True [Dir (js ''e'') True []]] (fresh_state\<lparr>counter := Some 1\<rparr>))
     = [ReadDir (js ''r''), ReadDir (js ''r/d''), ReadDir (js ''r/d/e'')] \<and>
   new_events (fresh_state\<lparr>counter := Some 1\<rparr>)
     (processPath (plain_config\<lparr>maxFiles := Some 1\<rparr>) (js ''b'')
        (Some (File (js ''b'') (text_file (js ''x'')))) (fresh_state\<lparr>counter := Some 1\<rparr>))
     = [Sniff (js ''b''), ReadFile (js ''b''), Emit (js ''b'')] \<and>
   counter (processPath (plain_config\<lparr>maxFiles := Some 1\<rparr>) (js ''b'')
        (Some (File (js ''b'') (text_file (js ''x'')))) (fresh_state\<lparr>counter := Some 1\<rparr>))
     = Some 2"
  by code_simp

section \<open>Read failures\<close>







section \<open>A walk as a pass over the files it reaches\<close>
























section \<open>Accumulated gitignore rules\<close>

text \<open>A walk only appends to the rules.\<close>

lemma walkDir_appends_rules:
  "\<exists>rs. gitignoreRules (walkDir cfg root listable entries st) = gitignoreRules st @ rs"
proof (induction cfg root listable entries st rule: walkDir.induct)
  case (1 cfg root listable entries st)
  let ?R = "gitignoreRules st @ own_rules cfg root entries"
  let ?st1 = "load_gitignore cfg root entries (log_events [ReadDir root] st)"
  show ?case
  proof (cases "\<not> listable \<or> matcher_throws cfg root entries")
    case True
    then show ?thesis by (simp add: walkDir_aborts)
  next
    case False
    then have listable: "listable = True" and quiet_matcher: "\<not> matcher_throws cfg root entries"
      by simp_all
    obtain st2 returned where wf:
      "walk_files cfg root (surviving_files cfg ?R root entries) ?st1 = (st2, returned)"
      by (cases "walk_files cfg root (surviving_files cfg ?R root entries) ?st1")
    have R: "gitignoreRules ?st1 = ?R"
      by (simp add: load_gitignore_rules)
    have R2: "gitignoreRules st2 = ?R"
      using walk_files_rules[of cfg root "surviving_files cfg ?R root entries" ?st1] wf R
      by simp
    show ?thesis
    proof (cases returned)
      case True
      with R2 show ?thesis
        unfolding listable by (simp add: walkDir_listable[OF quiet_matcher wf])
    next
      case not_returned: False
      have "\<exists>rs. gitignoreRules (fold (\<lambda>subdir st'. if thrown st' then st'
                   else (case subdir of
                           Dir name l es \<Rightarrow> walkDir cfg (path_join root name) l es st'
                         | File name f \<Rightarrow> st'))
                 (surviving_subdirs cfg ?R root entries) st2) = gitignoreRules st @ rs"
      proof (rule subdirs_fold_invariant[where
            I = "\<lambda>s :: wstate. \<exists>rs. gitignoreRules s = gitignoreRules st @ rs"])
        show "\<exists>rs. gitignoreRules st2 = gitignoreRules st @ rs"
          using R2 by simp
      next
        fix name l es and s :: wstate
        assume d: "Dir name l es \<in> set (surviving_subdirs cfg ?R root entries)"
          and I: "\<exists>rs. gitignoreRules s = gitignoreRules st @ rs" and nt: "\<not> thrown s"
        have "\<exists>rs. gitignoreRules (walkDir cfg (path_join root name) l es s) = gitignoreRules s @ rs"
          using "1.IH"[of ?st1 "gitignoreRules ?st1" "(st2, returned)" st2 returned
                     "Dir name l es" s name l es]
            wf not_returned d R nt listable quiet_matcher
          by simp
        with I show "\<exists>rs. gitignoreRules (walkDir cfg (path_join root name) l es s)
            = gitignoreRules st @ rs"
          by auto
      qed
      with not_returned show ?thesis
        unfolding listable by (simp add: walkDir_listable[OF quiet_matcher wf])
    qed
  qed
qed

text \<open>
  C4. The claim: without a project-root matcher, the rules applied in a directory are
  the inherited ones and the \<open>.gitignore\<close> entries of the directory and its ancestors,
  and entries read in a sibling subtree are never applied to it. The directory \<open>a\<close> has
  a \<open>.gitignore\<close> with \<open>*.log\<close>; its sibling \<open>b\<close>, walked after it, has the file
  \<open>y.log\<close> and no \<open>.gitignore\<close>. The walk of the parent does not open \<open>y.log\<close>, the
  array still holds \<open>*.log\<close> at the end, and a walk of \<open>b\<close> alone, or of the parent with
  \<open>b\<close> listed first, emits \<open>y.log\<close>.
\<close>

theorem sibling_gitignore_leaks:
  "new_events fresh_state
     (walkDir plain_config (js ''r'') True
        [Dir (js ''a'') True [File (js ''.gitignore'') (text_file (js ''*.log''))],
         Dir (js ''b'') True [File (js ''y.log'') (text_file (js ''y''))]] fresh_state)
     = [ReadDir (js ''r''), ReadDir (js ''r/a''),
        ReadRules (js ''r/a/.gitignore''), ReadDir (js ''r/b'')] \<and>
   gitignoreRules
     (walkDir plain_config (js ''r'') True
        [Dir (js ''a'') True [File (js ''.gitignore'') (text_file (js ''*.log''))],
         Dir (js ''b'') True [File (js ''y.log'') (text_file (js ''y''))]] fresh_state)
     = [js ''*.log''] \<and>
   Emit (js ''r/b/y.log'') \<in> set (new_events fresh_state
     (walkDir plain_config (js ''r/b'') True
        [File (js ''y.log'') (text_file (js ''y''))] fresh_state)) \<and>
   Emit (js ''r/b/y.log'') \<in> set (new_events fresh_state
     (walkDir plain_config (js ''r'') True
        [Dir (js ''b'') True [File (js ''y.log'') (text_file (js ''y''))],
         Dir (js ''a'') True [File (js ''.gitignore'') (text_file (js ''*.log''))]] fresh_state))"
  by code_simp

section \<open>Indices of the documents of a walk\<close>

lemma indexed_refl: "indexed_step st st"
  unfolding indexed_step_def by (intro exI[of _ "[]"]) simp

lemma indexed_trans:
  assumes "indexed_step st s" and "indexed_step s s'"
  shows "indexed_step st s'"
proof -
  from assms(1) obtain c1 e1 where 1:
    "sink s = sink st @ concat (map (\<lambda>(k, c). rendered k c) (enumerate (globalIndex st) c1))"
    "globalIndex s = globalIndex st + length c1" "trace s = trace st @ e1"
    "length (filter emits e1) = length c1"
    unfolding indexed_step_def by blast
  from assms(2) obtain c2 e2 where 2:
    "sink s' = sink s @ concat (map (\<lambda>(k, c). rendered k c) (enumerate (globalIndex s) c2))"
    "globalIndex s' = globalIndex s + length c2" "trace s' = trace s @ e2"
    "length (filter emits e2) = length c2"
    unfolding indexed_step_def by blast
  have "sink s' = sink st @ concat (map (\<lambda>(k, c). rendered k c)
                                  (enumerate (globalIndex st) (c1 @ c2)))"
    using 1 2 by (simp add: enumerate_append_eq)
  moreover have "globalIndex s' = globalIndex st + length (c1 @ c2)"
    using 1 2 by simp
  moreover have "trace s' = trace st @ (e1 @ e2)" "length (filter emits (e1 @ e2)) = length (c1 @ c2)"
    using 1 2 by simp_all
  ultimately show ?thesis
    unfolding indexed_step_def by blast
qed

lemma indexed_silent:
  assumes "sink s = sink st" "globalIndex s = globalIndex st" "trace s = trace st @ es"
    "\<forall>e \<in> set es. \<not> emits e"
  shows "indexed_step st s"
proof -
  from assms(4) have "filter emits es = []" by (simp add: filter_empty_conv)
  with assms show ?thesis
    unfolding indexed_step_def by (intro exI[of _ "[]"] exI[of _ es]) simp
qed

lemma emit_document_indexed:
  assumes "json cfg \<or> cxml cfg"
  shows "indexed_step st (emit_document cfg p content st)"
proof -
  let ?d = "case pathMapper cfg of None \<Rightarrow> p | Some f \<Rightarrow> f p"
  let ?call = "if json cfg then JsonDoc ?d content (lineNumbers cfg)
               else XmlDoc ?d content (lineNumbers cfg)"
  have "sink (emit_document cfg p content st) = sink st @ rendered (globalIndex st) ?call"
    using assms
    by (auto simp: emit_document_def Let_def printPath_def log_events_def print_eqs)
  moreover have "globalIndex (emit_document cfg p content st) = globalIndex st + 1"
    using assms by (simp add: emit_document_fields)
  moreover have "trace (emit_document cfg p content st) = trace st @ [Emit p]"
    by (simp add: emit_document_fields)
  ultimately show ?thesis
    unfolding indexed_step_def
    by (intro exI[of _ "[?call]"] exI[of _ "[Emit p]"]) (simp add: enumerate_simps)
qed

lemma try_file_indexed:
  assumes "json cfg \<or> cxml cfg"
  shows "indexed_step st (try_file cfg p f st)"
proof -
  have silent: "indexed_step s (log_events es s)" if "\<forall>e \<in> set es. \<not> emits e" for s es
    using that by (intro indexed_silent[where es = es]) simp_all
  have warn: "indexed_step s (console_error cfg l s)" for s l
    by (intro indexed_silent[where es = "[]"]) simp_all
  have read: "indexed_step s (read_and_emit cfg p f s)" for s
  proof (cases "f_read f")
    case (Content c)
    have "indexed_step s (log_events [ReadFile p] s)" by (rule silent) simp
    moreover have "indexed_step (log_events [ReadFile p] s)
        (emit_document cfg p c (log_events [ReadFile p] s))"
      using assms by (rule emit_document_indexed)
    ultimately show ?thesis using Content
      by (auto simp: read_and_emit_def Let_def intro: indexed_trans)
  next
    case ENOENT
    then show ?thesis by (simp add: read_and_emit_def Let_def silent)
  next
    case EOTHER
    have "indexed_step s (log_events [ReadFile p] s)" by (rule silent) simp
    with EOTHER show ?thesis
      by (auto simp: read_and_emit_def Let_def intro: indexed_trans warn)
  qed
  obtain b calls where bc: "isBinaryFile p f = (b, calls)" by (cases "isBinaryFile p f")
  then have "\<forall>e \<in> set calls. \<not> emits e"
    using isBinaryFile_calls[of _ p f] by fastforce
  then have s1: "indexed_step st (log_events calls st)" by (rule silent)
  have s2: "indexed_step (log_events calls st) (log_events [StatSize p] (log_events calls st))"
    by (rule silent) simp
  show ?thesis
    unfolding try_file_def bc Let_def prod.case
    using s1 s2 read warn
    by (auto split: option.splits intro: indexed_trans)
qed

lemma walk_files_indexed:
  "json cfg \<or> cxml cfg \<Longrightarrow> indexed_step st (fst (walk_files cfg root ds st))"
proof (induction ds arbitrary: st)
  case Nil
  show ?case by (simp add: indexed_refl)
next
  case (Cons d ds)
  show ?case
  proof (cases "reached_maxFiles cfg st")
    case True
    then show ?thesis by (simp add: indexed_refl)
  next
    case False
    show ?thesis
    proof (cases d)
      case (File name f)
      have "indexed_step st (try_file cfg (path_join root name) f st)"
        using Cons.prems by (rule try_file_indexed)
      moreover have "indexed_step (try_file cfg (path_join root name) f st)
          (fst (walk_files cfg root ds (try_file cfg (path_join root name) f st)))"
        using Cons by simp
      ultimately show ?thesis using False File by (auto intro: indexed_trans)
    next
      case (Dir name l es)
      with Cons False show ?thesis by simp
    qed
  qed
qed

lemma load_gitignore_indexed:
  "indexed_step st (load_gitignore cfg root entries (log_events [ReadDir root] st))"
proof -
  have "\<forall>e \<in> set (snd (readGitignore root entries)). \<not> emits e"
    using readGitignore_calls by fastforce
  then show ?thesis
    by (intro indexed_silent[where es = "ReadDir root #
          (if ig cfg = None \<and> \<not> ignoreGitignore cfg then snd (readGitignore root entries) else [])"])
       (auto simp: load_gitignore_def split: prod.splits)
qed

lemma walkDir_indexed:
  "json cfg \<or> cxml cfg \<Longrightarrow> indexed_step st (walkDir cfg root listable entries st)"
proof (induction cfg root listable entries st rule: walkDir.induct)
  case (1 cfg root listable entries st)
  let ?R = "gitignoreRules st @ own_rules cfg root entries"
  let ?st1 = "load_gitignore cfg root entries (log_events [ReadDir root] st)"
  show ?case
  proof (cases "\<not> listable \<or> matcher_throws cfg root entries")
    case True
    then show ?thesis
      by (simp add: walkDir_aborts)
         (intro indexed_silent[where es = "[ReadDir root]"]; simp)
  next
    case False
    then have listable: "listable = True" and quiet_matcher: "\<not> matcher_throws cfg root entries"
      by simp_all
    obtain st2 returned where wf:
      "walk_files cfg root (surviving_files cfg ?R root entries) ?st1 = (st2, returned)"
      by (cases "walk_files cfg root (surviving_files cfg ?R root entries) ?st1")
    have "indexed_step ?st1 (fst (walk_files cfg root (surviving_files cfg ?R root entries) ?st1))"
      using "1.prems" by (rule walk_files_indexed)
    with wf have "indexed_step ?st1 st2" by simp
    with load_gitignore_indexed have i2: "indexed_step st st2" by (rule indexed_trans)
    have R: "gitignoreRules ?st1 = ?R"
      by (simp add: load_gitignore_rules)
    show ?thesis
    proof (cases returned)
      case True
      with i2 show ?thesis unfolding listable by (simp add: walkDir_listable[OF quiet_matcher wf])
    next
      case not_returned: False
      have "indexed_step st (fold (\<lambda>subdir st'. if thrown st' then st'
                   else (case subdir of
                           Dir name l es \<Rightarrow> walkDir cfg (path_join root name) l es st'
                         | File name f \<Rightarrow> st'))
                 (surviving_subdirs cfg ?R root entries) st2)"
      proof (rule subdirs_fold_invariant[where I = "indexed_step st"])
        show "indexed_step st st2" by (rule i2)
      next
        fix name l es and s :: wstate
        assume d: "Dir name l es \<in> set (surviving_subdirs cfg ?R root entries)"
          and I: "indexed_step st s" and nt: "\<not> thrown s"
        have "indexed_step s (walkDir cfg (path_join root name) l es s)"
          using "1.IH"[of ?st1 "gitignoreRules ?st1" "(st2, returned)" st2 returned
                     "Dir name l es" s name l es]
            wf not_returned d R nt listable quiet_matcher "1.prems"
          by simp
        with I show "indexed_step st (walkDir cfg (path_join root name) l es s)"
          by (rule indexed_trans)
      qed
      with not_returned show ?thesis
        unfolding listable by (simp add: walkDir_listable[OF quiet_matcher wf])
    qed
  qed
qed

lemma processPath_indexed:
  assumes "json cfg \<or> cxml cfg"
  shows "indexed_step st (processPath cfg p target st)"
proof (cases target)
  case None
  then show ?thesis by (simp add: processPath_def indexed_refl)
next
  case (Some node)
  show ?thesis
  proof (cases node)
    case (File n f)
    have "indexed_step st (st\<lparr>thrown := True\<rparr>)"
      by (intro indexed_silent[where es = "[]"]) simp_all
    with Some File assms show ?thesis
      by (auto simp: processPath_def Let_def indexed_refl try_file_indexed split: option.splits)
  next
    case (Dir n l es)
    with Some assms show ?thesis
      by (simp add: processPath_def walkDir_indexed)
  qed
qed

text \<open>
  C2. After \<open>resetDocumentIndex\<close>, a run of calls of \<open>printAsXml\<close> and \<open>printAsJson\<close>
  writes the documents with the indices 1, 2, 3, ... in the order of the calls, one index
  per document and none left out, and leaves the next index in \<open>globalIndex\<close>; a second
  run without a reset goes on from there. The index of an XML document is in its first
  line and that of a JSON document in its object, as the decimal numeral of the number.
  In the XML and JSON formats every \<open>processPath\<close>, on a file or walking a directory,
  is such a run: it writes one indexed document for each file it emits, with consecutive
  indices from the current \<open>globalIndex\<close> on.
\<close>

theorem document_indices_count_from_one:
  "sink (emit_calls calls (resetDocumentIndex st)) =
     sink st @ concat (map (\<lambda>(k, c). rendered k c) (enumerate 1 calls)) \<and>
   globalIndex (emit_calls calls (resetDocumentIndex st)) = 1 + length calls \<and>
   sink (emit_calls later (emit_calls calls (resetDocumentIndex st))) =
     sink st @ concat (map (\<lambda>(k, c). rendered k c) (enumerate 1 calls))
            @ concat (map (\<lambda>(k, c). rendered k c) (enumerate (1 + length calls) later)) \<and>
   map fst (enumerate 1 calls @ enumerate (1 + length calls) later)
     = [1 ..< 1 + length calls + length later] \<and>
   hd (rendered k (XmlDoc filePath content numbered)) =
     js ''<document index='' @ [DQUOTE] @ String k @ [DQUOTE] @ js ''>'' \<and>
   rendered k (JsonDoc filePath content numbered) =
     [JSON_document k filePath (if numbered then addLineNumbers content else content)] \<and>
   decimal_value (String k) = k \<and>
   (json cfg \<or> cxml cfg \<longrightarrow> indexed_step state (processPath cfg p target state))"
proof -
  have run: "sink (emit_calls calls (resetDocumentIndex st)) =
     sink st @ concat (map (\<lambda>(k, c). rendered k c) (enumerate 1 calls))"
    by (simp add: emit_calls_sink)
  have next_index: "globalIndex (emit_calls calls (resetDocumentIndex st)) = 1 + length calls"
    by (simp add: emit_calls_index)
  have continued: "sink (emit_calls later (emit_calls calls (resetDocumentIndex st))) =
     sink st @ concat (map (\<lambda>(k, c). rendered k c) (enumerate 1 calls))
            @ concat (map (\<lambda>(k, c). rendered k c) (enumerate (1 + length calls) later))"
    by (simp add: emit_calls_sink emit_calls_index)
  have gapless: "map fst (enumerate 1 calls @ enumerate (1 + length calls) later)
     = [1 ..< 1 + length calls + length later]"
    by (simp only: map_append map_fst_enumerate
          upt_add_eq_append[of 1 "1 + length calls" "length later", OF le_add1])
  have xml: "hd (rendered k (XmlDoc filePath content numbered)) =
     js ''<document index='' @ [DQUOTE] @ String k @ [DQUOTE] @ js ''>''"
    by simp
  have json: "rendered k (JsonDoc filePath content numbered) =
     [JSON_document k filePath (if numbered then addLineNumbers content else content)]"
    by simp
  have numeral: "decimal_value (String k) = k"
    by (rule decimal_String)
  have walked: "json cfg \<or> cxml cfg \<longrightarrow> indexed_step state (processPath cfg p target state)"
    by (simp add: processPath_indexed)
  from run next_index continued gapless xml json numeral walked show ?thesis
    by blast
qed

theorem document_indices_count_from_one_witness:
  "cxml (plain_config\<lparr>cxml := True\<rparr>) \<and>
   indexed_step (resetDocumentIndex (fresh_state\<lparr>globalIndex := 7\<rparr>))
     (processPath (plain_config\<lparr>cxml := True\<rparr>) (js ''r'')
        (Some (Dir (js ''r'') True
           [File (js ''a'') (text_file (js ''x'')), File (js ''b'') (text_file (js ''y''))]))
        (resetDocumentIndex (fresh_state\<lparr>globalIndex := 7\<rparr>))) \<and>
   map (\<lambda>i. sink (processPath (plain_config\<lparr>cxml := True\<rparr>) (js ''r'')
        (Some (Dir (js ''r'') True
           [File (js ''a'') (text_file (js ''x'')), File (js ''b'') (text_file (js ''y''))]))
        (resetDocumentIndex (fresh_state\<lparr>globalIndex := 7\<rparr>))) ! i) [0, 6]
     = [js ''<document index='' @ [DQUOTE] @ js ''1'' @ [DQUOTE] @ js ''>'',
        js ''<document index='' @ [DQUOTE] @ js ''2'' @ [DQUOTE] @ js ''>'']"
proof -
  have format: "cxml (plain_config\<lparr>cxml := True\<rparr>)"
    by (simp add: plain_config_def)
  with document_indices_count_from_one[where cfg = "plain_config\<lparr>cxml := True\<rparr>"
      and state = "resetDocumentIndex (fresh_state\<lparr>globalIndex := 7\<rparr>)" and p = "(js ''r'')"
      and target = "Some (Dir (js ''r'') True
           [File (js ''a'') (text_file (js ''x'')), File (js ''b'') (text_file (js ''y''))])"]
  have indexed: "indexed_step (resetDocumentIndex (fresh_state\<lparr>globalIndex := 7\<rparr>))
     (processPath (plain_config\<lparr>cxml := True\<rparr>) (js ''r'')
        (Some (Dir (js ''r'') True
           [File (js ''a'') (text_file (js ''x'')), File (js ''b'') (text_file (js ''y''))]))
        (resetDocumentIndex (fresh_state\<lparr>globalIndex := 7\<rparr>)))"
    by blast
  have "map (\<lambda>i. sink (processPath (plain_config\<lparr>cxml := True\<rparr>) (js ''r'')
        (Some (Dir (js ''r'') True
           [File (js ''a'') (text_file (js ''x'')), File (js ''b'') (text_file (js ''y''))]))
        (resetDocumentIndex (fresh_state\<lparr>globalIndex := 7\<rparr>))) ! i) [0, 6]
     = [js ''<document index='' @ [DQUOTE] @ js ''1'' @ [DQUOTE] @ js ''>'',
        js ''<document index='' @ [DQUOTE] @ js ''2'' @ [DQUOTE] @ js ''>'']"
    by code_simp
  with format indexed show ?thesis by blast
qed

end
